theory Spec2Isabelle
  imports Complex_Main "HOL-Library.Multiset" "HOL-Library.List_Lexorder" "HOL-Library.Char_ord"
begin

chapter \<open>The model\<close>

section \<open>Python values shared by the modules\<close>

text \<open>
  Cards of \<open>python_skeleton_vNB\<close> are Python strings such as \<open>As\<close>: character 0 is the
  rank, character 1 the suit. Every exception the modelled code can raise is a value of
  \<open>py_error\<close>; a function that can raise returns \<open>py_error + 'a\<close>.
\<close>

datatype py_error =
  IndexError | KeyError | StopIteration | ValueError | ZeroDivisionError | DeckError

type_synonym card = string

definition RANKS :: string where
  "RANKS = ''23456789TJQKA''"

definition SUITS :: string where
  "SUITS = ''shdc''"

text \<open>\<open>rank, suit = c[0], c[1]\<close>: indexing a string that is too short raises IndexError.\<close>

definition rank_suit :: "card \<Rightarrow> py_error + (char \<times> char)" where
  "rank_suit c = (case c of rank # suit # _ \<Rightarrow> Inr (rank, suit) | _ \<Rightarrow> Inl IndexError)"

text \<open>\<open>sep.join(xs)\<close>\<close>

fun join :: "string \<Rightarrow> string list \<Rightarrow> string" where
  "join sep [] = []"
| "join sep [x] = x"
| "join sep (x # y # ys) = x @ sep @ join sep (y # ys)"


text \<open>\<open>[c[0] for c in cards]\<close> and \<open>[c[1] for c in cards]\<close>, computed together.\<close>

fun ranks_suits :: "card list \<Rightarrow> py_error + (char list \<times> char list)" where
  "ranks_suits [] = Inr ([], [])"
| "ranks_suits (c # cs) =
     (case rank_suit c of
        Inl e \<Rightarrow> Inl e
      | Inr (rank, suit) \<Rightarrow>
          (case ranks_suits cs of
             Inl e \<Rightarrow> Inl e
           | Inr (ranks, suits) \<Rightarrow> Inr (rank # ranks, suit # suits)))"

text \<open>
  \<open>{r: i for i, r in enumerate(rs)}\<close>: a later occurrence of a key overwrites an earlier
  one.
\<close>

definition index_dict :: "string \<Rightarrow> (char \<rightharpoonup> nat)" where
  "index_dict rs = foldl (\<lambda>m (i, r). m(r \<mapsto> i)) Map.empty (zip [0..<length rs] rs)"

text \<open>\<open>d[k]\<close> on a dictionary raises KeyError for a missing key.\<close>

definition getitem :: "('k \<rightharpoonup> 'v) \<Rightarrow> 'k \<Rightarrow> py_error + 'v" where
  "getitem d k = (case d k of None \<Rightarrow> Inl KeyError | Some v \<Rightarrow> Inr v)"

text \<open>
  \<open>max(xs, key=f)\<close> and \<open>min(xs, key=f)\<close>: the key is computed once per element, left to
  right; the first element with the extreme key is returned; an empty sequence raises
  ValueError.
\<close>

fun max_loop :: "('a \<Rightarrow> py_error + nat) \<Rightarrow> 'a \<Rightarrow> nat \<Rightarrow> 'a list \<Rightarrow> py_error + 'a" where
  "max_loop key best best_key [] = Inr best"
| "max_loop key best best_key (x # xs) =
     (case key x of
        Inl e \<Rightarrow> Inl e
      | Inr k \<Rightarrow> if k > best_key then max_loop key x k xs else max_loop key best best_key xs)"

definition py_max :: "('a \<Rightarrow> py_error + nat) \<Rightarrow> 'a list \<Rightarrow> py_error + 'a" where
  "py_max key xs =
     (case xs of
        [] \<Rightarrow> Inl ValueError
      | x # xs' \<Rightarrow> (case key x of Inl e \<Rightarrow> Inl e | Inr k \<Rightarrow> max_loop key x k xs'))"

fun min_loop :: "('a \<Rightarrow> py_error + nat) \<Rightarrow> 'a \<Rightarrow> nat \<Rightarrow> 'a list \<Rightarrow> py_error + 'a" where
  "min_loop key best best_key [] = Inr best"
| "min_loop key best best_key (x # xs) =
     (case key x of
        Inl e \<Rightarrow> Inl e
      | Inr k \<Rightarrow> if k < best_key then min_loop key x k xs else min_loop key best best_key xs)"

definition py_min :: "('a \<Rightarrow> py_error + nat) \<Rightarrow> 'a list \<Rightarrow> py_error + 'a" where
  "py_min key xs =
     (case xs of
        [] \<Rightarrow> Inl ValueError
      | x # xs' \<Rightarrow> (case key x of Inl e \<Rightarrow> Inl e | Inr k \<Rightarrow> min_loop key x k xs'))"

text \<open>
  \<open>collections.Counter\<close>: a dictionary of counts that keeps its keys in first-seen order,
  here an association list. \<open>most_common()\<close> sorts the items by count, largest first, and
  keeps the first-seen order among equal counts.
\<close>

fun counter_add :: "'a \<Rightarrow> ('a \<times> nat) list \<Rightarrow> ('a \<times> nat) list" where
  "counter_add x [] = [(x, 1)]"
| "counter_add x ((k, n) # kvs) =
     (if k = x then (k, Suc n) # kvs else (k, n) # counter_add x kvs)"

definition Counter :: "'a list \<Rightarrow> ('a \<times> nat) list" where
  "Counter xs = foldl (\<lambda>acc x. counter_add x acc) [] xs"

definition most_common :: "('a \<times> nat) list \<Rightarrow> ('a \<times> nat) list" where
  "most_common kvs = sort_key (\<lambda>(k, n). - int n) kvs"

text \<open>\<open>str(n)\<close> for an integer, as an f-string prints it.\<close>

fun str_nat :: "nat \<Rightarrow> string" where
  "str_nat n =
     (if n < 10 then [char_of (48 + n)]
      else str_nat (n div 10) @ [char_of (48 + n mod 10)])"

definition str_int :: "int \<Rightarrow> string" where
  "str_int i = (if i < 0 then CHR ''-'' # str_nat (nat (- i)) else str_nat (nat i))"

section \<open>build_discard_table.py: canonicalizer and keys\<close>

text \<open>
  \<open>canonicalize_cards\<close>: the loop state is the dictionary \<open>suit_map\<close>, the rest of the
  iterator \<open>next_suit\<close> over \<open>shdc\<close>, and the list \<open>out\<close>. \<open>next\<close> on the exhausted
  iterator raises StopIteration.
\<close>

fun canonicalize_loop ::
  "(char \<rightharpoonup> char) \<Rightarrow> string \<Rightarrow> card list \<Rightarrow> card list \<Rightarrow> py_error + card list" where
  "canonicalize_loop suit_map next_suit out [] = Inr out"
| "canonicalize_loop suit_map next_suit out (c # cards) =
     (case rank_suit c of
        Inl e \<Rightarrow> Inl e
      | Inr (rank, suit) \<Rightarrow>
          (case suit_map suit of
             Some s \<Rightarrow> canonicalize_loop suit_map next_suit (out @ [[rank, s]]) cards
           | None \<Rightarrow>
               (case next_suit of
                  [] \<Rightarrow> Inl StopIteration
                | s # rest \<Rightarrow>
                    canonicalize_loop (suit_map(suit \<mapsto> s)) rest (out @ [[rank, s]]) cards)))"

definition canonicalize_cards :: "card list \<Rightarrow> py_error + card list" where
  "canonicalize_cards cards = canonicalize_loop Map.empty ''shdc'' [] cards"

definition hand_key :: "card list \<Rightarrow> card list \<Rightarrow> py_error + string" where
  "hand_key hand board =
     (case canonicalize_cards (hand @ board) of
        Inl e \<Rightarrow> Inl e
      | Inr canon \<Rightarrow> Inr (join ''_'' (sort (take (length hand) canon))))"


text \<open>
  \<open>flop_signature(board, hand)\<close>. The ranks and suits are read from the canonical board
  cards; \<open>rank_order[r]\<close> raises KeyError for a character that is no rank symbol.
\<close>

definition flop_signature :: "card list \<Rightarrow> card list \<Rightarrow> py_error + string" where
  "flop_signature board hand =
     (if board = [] then Inr ''empty''
      else
        (case canonicalize_cards (hand @ board) of
           Inl e \<Rightarrow> Inl e
         | Inr canon \<Rightarrow>
        (case ranks_suits (drop (length hand) canon) of
           Inl e \<Rightarrow> Inl e
         | Inr (ranks, suits) \<Rightarrow>
        (let rank_order = index_dict RANKS in
        (case py_max (getitem rank_order) ranks of
           Inl e \<Rightarrow> Inl e
         | Inr hi \<Rightarrow>
        (case py_min (getitem rank_order) ranks of
           Inl e \<Rightarrow> Inl e
         | Inr lo \<Rightarrow>
        (let paired = (if length (remdups ranks) < length ranks then 1 else 0 :: int);
             suit_counts = most_common (Counter suits);
             max_suit = (case suit_counts of [] \<Rightarrow> 1 | (s, n) # rest \<Rightarrow> n);
             suit_tex = (if max_suit = 1 then ''rainbow''
                         else if max_suit = 2 then ''two'' else ''mono'')
         in
        (case getitem rank_order hi of
           Inl e \<Rightarrow> Inl e
         | Inr hi_order \<Rightarrow>
        (case getitem rank_order lo of
           Inl e \<Rightarrow> Inl e
         | Inr lo_order \<Rightarrow>
        (let spread = int hi_order - int lo_order;
             connect = (if spread \<le> 2 then ''tight''
                        else if spread \<le> 4 then ''med'' else ''loose'')
         in Inr (suit_tex @ ''|paired:'' @ str_int paired @ ''|hi:'' @ [hi]
                 @ ''|spread:'' @ str_int spread @ ''|connect:'' @ connect)))))))))))"

text \<open>The key under which \<open>build_table\<close> stores a discard index.\<close>

definition discard_table_key :: "card list \<Rightarrow> card list \<Rightarrow> py_error + string" where
  "discard_table_key hand3 board =
     (case flop_signature board hand3 of
        Inl e \<Rightarrow> Inl e
      | Inr sig \<Rightarrow>
          (case hand_key hand3 board of
             Inl e \<Rightarrow> Inl e
           | Inr k \<Rightarrow> Inr (k @ ''|'' @ sig)))"

section \<open>build_equity_table.py: canonicalizer and key\<close>

fun et_canonicalize_loop ::
  "(char \<rightharpoonup> char) \<Rightarrow> string \<Rightarrow> card list \<Rightarrow> card list \<Rightarrow> py_error + card list" where
  "et_canonicalize_loop suit_map next_suit out [] = Inr out"
| "et_canonicalize_loop suit_map next_suit out (c # cards) =
     (case rank_suit c of
        Inl e \<Rightarrow> Inl e
      | Inr (rank, suit) \<Rightarrow>
          (case suit_map suit of
             Some s \<Rightarrow> et_canonicalize_loop suit_map next_suit (out @ [[rank, s]]) cards
           | None \<Rightarrow>
               (case next_suit of
                  [] \<Rightarrow> Inl StopIteration
                | s # rest \<Rightarrow>
                    et_canonicalize_loop (suit_map(suit \<mapsto> s)) rest (out @ [[rank, s]]) cards)))"

definition et_canonicalize_cards :: "card list \<Rightarrow> py_error + card list" where
  "et_canonicalize_cards cards = et_canonicalize_loop Map.empty ''shdc'' [] cards"

definition hand_board_key :: "card list \<Rightarrow> card list \<Rightarrow> py_error + string" where
  "hand_board_key hand board =
     (case et_canonicalize_cards (hand @ board) of
        Inl e \<Rightarrow> Inl e
      | Inr canon \<Rightarrow>
          Inr (join ''_'' (sort (take (length hand) canon)) @ ''|''
               @ join ''_'' (sort (drop (length hand) canon))))"

section \<open>player.py: the runtime lookup path\<close>

fun player_canonicalize_loop ::
  "(char \<rightharpoonup> char) \<Rightarrow> string \<Rightarrow> card list \<Rightarrow> card list \<Rightarrow> py_error + card list" where
  "player_canonicalize_loop suit_map next_suit out [] = Inr out"
| "player_canonicalize_loop suit_map next_suit out (c # cards) =
     (case rank_suit c of
        Inl e \<Rightarrow> Inl e
      | Inr (rank, suit) \<Rightarrow>
          (case suit_map suit of
             Some s \<Rightarrow> player_canonicalize_loop suit_map next_suit (out @ [[rank, s]]) cards
           | None \<Rightarrow>
               (case next_suit of
                  [] \<Rightarrow> Inl StopIteration
                | s # rest \<Rightarrow>
                    player_canonicalize_loop (suit_map(suit \<mapsto> s)) rest
                      (out @ [[rank, s]]) cards)))"

definition player_canonicalize_cards :: "card list \<Rightarrow> py_error + card list" where
  "player_canonicalize_cards cards = player_canonicalize_loop Map.empty ''shdc'' [] cards"

definition player_equity_key :: "card list \<Rightarrow> card list \<Rightarrow> py_error + string" where
  "player_equity_key hand board =
     (case player_canonicalize_cards (hand @ board) of
        Inl e \<Rightarrow> Inl e
      | Inr canon \<Rightarrow>
          Inr (join ''_'' (sort (take (length hand) canon)) @ ''|''
               @ join ''_'' (sort (drop (length hand) canon))))"

definition player_hand_key :: "card list \<Rightarrow> card list \<Rightarrow> py_error + string" where
  "player_hand_key hand board =
     (case player_canonicalize_cards (hand @ board) of
        Inl e \<Rightarrow> Inl e
      | Inr canon \<Rightarrow> Inr (join ''_'' (sort (take (length hand) canon))))"

definition player_flop_signature :: "card list \<Rightarrow> card list \<Rightarrow> py_error + string" where
  "player_flop_signature board hand =
     (if board = [] then Inr ''empty''
      else
        (case player_canonicalize_cards (hand @ board) of
           Inl e \<Rightarrow> Inl e
         | Inr canon \<Rightarrow>
        (case ranks_suits (drop (length hand) canon) of
           Inl e \<Rightarrow> Inl e
         | Inr (ranks, suits) \<Rightarrow>
        (let rank_order = index_dict ''23456789TJQKA'' in
        (case py_max (getitem rank_order) ranks of
           Inl e \<Rightarrow> Inl e
         | Inr hi \<Rightarrow>
        (case py_min (getitem rank_order) ranks of
           Inl e \<Rightarrow> Inl e
         | Inr lo \<Rightarrow>
        (let paired = (if length (remdups ranks) < length ranks then 1 else 0 :: int);
             suit_counts = most_common (Counter suits);
             max_suit = (case suit_counts of [] \<Rightarrow> 1 | (s, n) # rest \<Rightarrow> n);
             suit_tex = (if max_suit = 1 then ''rainbow''
                         else if max_suit = 2 then ''two'' else ''mono'')
         in
        (case getitem rank_order hi of
           Inl e \<Rightarrow> Inl e
         | Inr hi_order \<Rightarrow>
        (case getitem rank_order lo of
           Inl e \<Rightarrow> Inl e
         | Inr lo_order \<Rightarrow>
        (let spread = int hi_order - int lo_order;
             connect = (if spread \<le> 2 then ''tight''
                        else if spread \<le> 4 then ''med'' else ''loose'')
         in Inr (suit_tex @ ''|paired:'' @ str_int paired @ ''|hi:'' @ [hi]
                 @ ''|spread:'' @ str_int spread @ ''|connect:'' @ connect)))))))))))"

text \<open>
  The key \<open>_lookup_discard_table\<close> looks up: the operands of \<open>+\<close> are evaluated left to
  right.
\<close>

definition player_discard_lookup_key :: "card list \<Rightarrow> card list \<Rightarrow> py_error + string" where
  "player_discard_lookup_key hand board =
     (case player_hand_key hand board of
        Inl e \<Rightarrow> Inl e
      | Inr k \<Rightarrow>
          (case player_flop_signature board hand of
             Inl e \<Rightarrow> Inl e
           | Inr sig \<Rightarrow> Inr (k @ ''|'' @ sig)))"


section \<open>pkrbot: the external card library\<close>

text \<open>
  \<open>pkrbot\<close> is not part of the repository, so what the estimators use of it is a
  parameter \<open>ext\<close> of the model: the cards of a fresh \<open>pb.Deck()\<close>, \<open>deck.shuffle()\<close> as a
  function of the state \<open>'g\<close> of the random generator, \<open>deck.deal(n)\<close> that returns the
  dealt cards and the cards left in the deck or raises, and \<open>pb.evaluate\<close> that returns a
  score or raises. \<open>pb.Card(c)\<close> is the card string itself: two cards are equal when their
  strings are.
\<close>

record 'g pkrbot =
  Deck_cards :: "card list"
  shuffle :: "'g \<Rightarrow> card list \<Rightarrow> card list \<times> 'g"
  deal :: "int \<Rightarrow> card list \<Rightarrow> py_error + (card list \<times> card list)"
  evaluate :: "card list \<Rightarrow> py_error + int"

text \<open>
  Modelled from the spec: the behaviour of \<open>pkrbot\<close>'s \<open>Deck\<close> and \<open>evaluate\<close>, whose code
  is not in the repository. The specification says that the library constructs all 52
  cards, shuffles, deals N cards without replacement, and scores five or more cards. So:
  shuffling permutes the deck; the cards dealt are removed from the deck; dealing succeeds
  when the deck holds enough cards; a hand of at least five cards has a score; a fresh deck
  holds 52 distinct cards.
\<close>

definition shuffle_permutes :: "'g pkrbot \<Rightarrow> bool" where
  "shuffle_permutes ext = (\<forall>g cards. mset (fst (shuffle ext g cards)) = mset cards)"

definition deal_removes :: "'g pkrbot \<Rightarrow> bool" where
  "deal_removes ext =
     (\<forall>n cards dealt rest. deal ext n cards = Inr (dealt, rest)
        \<longrightarrow> mset dealt + mset rest = mset cards)"

definition deal_succeeds :: "'g pkrbot \<Rightarrow> bool" where
  "deal_succeeds ext =
     (\<forall>n cards. 0 \<le> n \<and> n \<le> int (length cards)
        \<longrightarrow> (\<exists>dealt rest. deal ext n cards = Inr (dealt, rest) \<and> int (length dealt) = n))"

definition evaluate_succeeds :: "'g pkrbot \<Rightarrow> bool" where
  "evaluate_succeeds ext = (\<forall>cards. 5 \<le> length cards \<longrightarrow> (\<exists>score. evaluate ext cards = Inr score))"

definition full_deck :: "'g pkrbot \<Rightarrow> bool" where
  "full_deck ext = (length (Deck_cards ext) = 52 \<and> distinct (Deck_cards ext))"

definition pkrbot_contract :: "'g pkrbot \<Rightarrow> bool" where
  "pkrbot_contract ext =
     (shuffle_permutes ext \<and> deal_removes ext \<and> deal_succeeds ext \<and> evaluate_succeeds ext
      \<and> full_deck ext)"

text \<open>
  One library that meets this description, for running the model on concrete inputs: the
  deck in the order rank by suit, a shuffle that rotates the deck by the generator state,
  dealing from the front, and the sum of the rank positions as score.
\<close>

definition ref_evaluate :: "card list \<Rightarrow> py_error + int" where
  "ref_evaluate cards =
     Inr (sum_list (map (\<lambda>c. case index_dict RANKS (hd c) of None \<Rightarrow> 0 | Some i \<Rightarrow> int i) cards))"

definition ref_deal :: "int \<Rightarrow> card list \<Rightarrow> py_error + (card list \<times> card list)" where
  "ref_deal n cards =
     (if n < 0 \<or> int (length cards) < n then Inl DeckError
      else Inr (take (nat n) cards, drop (nat n) cards))"

definition ref_pkrbot :: "nat pkrbot" where
  "ref_pkrbot =
     \<lparr>Deck_cards = concat (map (\<lambda>r. map (\<lambda>s. [r, s]) SUITS) RANKS),
      shuffle = (\<lambda>g cards. (rotate g cards, Suc g)),
      deal = ref_deal,
      evaluate = ref_evaluate\<rparr>"

section \<open>The Monte Carlo loop of both estimators\<close>

text \<open>
  The loop body is the same text in \<open>build_discard_table.estimate_equity\<close> and in
  \<open>build_equity_table.estimate_equity\<close> but for the scoring function, here \<open>score\<close>. One
  trial takes the deck and the generator state, and returns both scores and the deck after
  \<open>deck.cards.extend(opp + draw)\<close>.
\<close>

definition play_trial ::
  "'g pkrbot \<Rightarrow> (card list \<Rightarrow> py_error + int) \<Rightarrow> card list \<Rightarrow> card list \<Rightarrow> int
     \<Rightarrow> card list \<times> 'g \<Rightarrow> py_error + ((int \<times> int) \<times> (card list \<times> 'g))" where
  "play_trial ext score hand_cards board_cards need_board deck =
     (case shuffle ext (snd deck) (fst deck) of (cards, g) \<Rightarrow>
     (case deal ext 2 cards of
        Inl e \<Rightarrow> Inl e
      | Inr (opp, cards) \<Rightarrow>
     (case deal ext need_board cards of
        Inl e \<Rightarrow> Inl e
      | Inr (draw, cards) \<Rightarrow>
     (let final_board = board_cards @ draw in
     (case score (final_board @ hand_cards) of
        Inl e \<Rightarrow> Inl e
      | Inr my_score \<Rightarrow>
     (case score (final_board @ opp) of
        Inl e \<Rightarrow> Inl e
      | Inr opp_score \<Rightarrow>
          Inr ((my_score, opp_score), (cards @ (opp @ draw), g))))))))"

text \<open>\<open>for _ in range(trials)\<close> with the counters \<open>wins\<close> and \<open>ties\<close>.\<close>

fun run_trials ::
  "'g pkrbot \<Rightarrow> (card list \<Rightarrow> py_error + int) \<Rightarrow> card list \<Rightarrow> card list \<Rightarrow> int
     \<Rightarrow> nat \<Rightarrow> card list \<times> 'g \<Rightarrow> nat \<times> nat
     \<Rightarrow> py_error + ((nat \<times> nat) \<times> (card list \<times> 'g))" where
  "run_trials ext score hand_cards board_cards need_board 0 deck (wins, ties) =
     Inr ((wins, ties), deck)"
| "run_trials ext score hand_cards board_cards need_board (Suc n) deck (wins, ties) =
     (case play_trial ext score hand_cards board_cards need_board deck of
        Inl e \<Rightarrow> Inl e
      | Inr ((my_score, opp_score), deck') \<Rightarrow>
          run_trials ext score hand_cards board_cards need_board n deck'
            (if my_score > opp_score then (wins + 1, ties)
             else if my_score = opp_score then (wins, ties + 1)
             else (wins, ties)))"

text \<open>
  Two observations of the same loop, for stating properties: the deck as each trial finds
  it, and the pair of scores of each trial that completes.
\<close>

fun trial_decks ::
  "'g pkrbot \<Rightarrow> (card list \<Rightarrow> py_error + int) \<Rightarrow> card list \<Rightarrow> card list \<Rightarrow> int
     \<Rightarrow> nat \<Rightarrow> card list \<times> 'g \<Rightarrow> card list list" where
  "trial_decks ext score hand_cards board_cards need_board 0 deck = []"
| "trial_decks ext score hand_cards board_cards need_board (Suc n) deck =
     fst deck #
     (case play_trial ext score hand_cards board_cards need_board deck of
        Inl e \<Rightarrow> []
      | Inr (scores, deck') \<Rightarrow>
          trial_decks ext score hand_cards board_cards need_board n deck')"

fun trial_scores ::
  "'g pkrbot \<Rightarrow> (card list \<Rightarrow> py_error + int) \<Rightarrow> card list \<Rightarrow> card list \<Rightarrow> int
     \<Rightarrow> nat \<Rightarrow> card list \<times> 'g \<Rightarrow> (int \<times> int) list" where
  "trial_scores ext score hand_cards board_cards need_board 0 deck = []"
| "trial_scores ext score hand_cards board_cards need_board (Suc n) deck =
     (case play_trial ext score hand_cards board_cards need_board deck of
        Inl e \<Rightarrow> []
      | Inr (scores, deck') \<Rightarrow>
          scores # trial_scores ext score hand_cards board_cards need_board n deck')"

text \<open>\<open>deck.cards = [c for c in deck.cards if c not in used]\<close>\<close>

definition unknown_cards :: "'g pkrbot \<Rightarrow> card list \<Rightarrow> card list \<Rightarrow> card list" where
  "unknown_cards ext hand board =
     filter (\<lambda>c. c \<notin> set (hand @ board)) (Deck_cards ext)"

text \<open>\<open>(wins + 0.5 * ties) / trials if trials else 0.0\<close>\<close>

definition equity_value :: "nat \<Rightarrow> nat \<Rightarrow> int \<Rightarrow> real" where
  "equity_value wins ties trials =
     (if trials \<noteq> 0 then (real wins + 0.5 * real ties) / real_of_int trials else 0)"

section \<open>build_discard_table.py: estimator and best discard\<close>

definition estimate_equity ::
  "'g pkrbot \<Rightarrow> 'g \<Rightarrow> card list \<Rightarrow> card list \<Rightarrow> int \<Rightarrow> py_error + (real \<times> 'g)" where
  "estimate_equity ext g kept board trials =
     (let cards = unknown_cards ext kept board;
          need_board = 5 - int (length board)
      in case run_trials ext (evaluate ext) kept board need_board (nat trials) (cards, g) (0, 0) of
           Inl e \<Rightarrow> Inl e
         | Inr ((wins, ties), deck) \<Rightarrow> Inr (equity_value wins ties trials, snd deck))"

text \<open>\<open>[c for i, c in enumerate(hand3) if i != di]\<close>\<close>

definition keep_without :: "card list \<Rightarrow> nat \<Rightarrow> card list" where
  "keep_without hand3 di = map snd (filter (\<lambda>(i, c). i \<noteq> di) (enumerate 0 hand3))"

text \<open>
  \<open>best_discard\<close>: the loop over \<open>range(3)\<close> carries \<open>best_idx\<close> (None at first),
  \<open>best_score\<close> (-1.0 at first) and the generator state.
\<close>

fun best_discard_loop ::
  "'g pkrbot \<Rightarrow> card list \<Rightarrow> card list \<Rightarrow> int \<Rightarrow> nat list \<Rightarrow> nat option \<times> real \<Rightarrow> 'g
     \<Rightarrow> py_error + (nat option \<times> 'g)" where
  "best_discard_loop ext hand3 board trials [] (best_idx, best_score) g = Inr (best_idx, g)"
| "best_discard_loop ext hand3 board trials (di # rest) (best_idx, best_score) g =
     (case estimate_equity ext g (keep_without hand3 di) board trials of
        Inl e \<Rightarrow> Inl e
      | Inr (score, g') \<Rightarrow>
          if score > best_score
          then best_discard_loop ext hand3 board trials rest (Some di, score) g'
          else best_discard_loop ext hand3 board trials rest (best_idx, best_score) g')"

definition best_discard ::
  "'g pkrbot \<Rightarrow> 'g \<Rightarrow> card list \<Rightarrow> card list \<Rightarrow> int \<Rightarrow> py_error + (nat option \<times> 'g)" where
  "best_discard ext g hand3 board trials =
     best_discard_loop ext hand3 board trials [0, 1, 2] (None, - 1) g"

text \<open>The equities that the loop of \<open>best_discard\<close> computes, in scan order.\<close>

fun discard_scores ::
  "'g pkrbot \<Rightarrow> card list \<Rightarrow> card list \<Rightarrow> int \<Rightarrow> nat list \<Rightarrow> 'g \<Rightarrow> py_error + real list" where
  "discard_scores ext hand3 board trials [] g = Inr []"
| "discard_scores ext hand3 board trials (di # rest) g =
     (case estimate_equity ext g (keep_without hand3 di) board trials of
        Inl e \<Rightarrow> Inl e
      | Inr (score, g') \<Rightarrow>
          (case discard_scores ext hand3 board trials rest g' of
             Inl e \<Rightarrow> Inl e
           | Inr scores \<Rightarrow> Inr (score # scores)))"

section \<open>build_equity_table.py: estimator\<close>

definition FINAL_BOARD_CARDS :: int where
  "FINAL_BOARD_CARDS = 6"

text \<open>\<open>itertools.combinations(cards, k)\<close>, in its order.\<close>

fun combinations :: "nat \<Rightarrow> 'a list \<Rightarrow> 'a list list" where
  "combinations 0 xs = [[]]"
| "combinations (Suc k) [] = []"
| "combinations (Suc k) (x # xs) = map ((#) x) (combinations k xs) @ combinations (Suc k) xs"

fun best5_loop :: "'g pkrbot \<Rightarrow> int \<Rightarrow> card list list \<Rightarrow> py_error + int" where
  "best5_loop ext best [] = Inr best"
| "best5_loop ext best (combo # rest) =
     (case evaluate ext combo of
        Inl e \<Rightarrow> Inl e
      | Inr score \<Rightarrow> best5_loop ext (if score > best then score else best) rest)"

definition best5_score :: "'g pkrbot \<Rightarrow> card list \<Rightarrow> py_error + int" where
  "best5_score ext cards = best5_loop ext 0 (combinations 5 cards)"

definition et_estimate_equity ::
  "'g pkrbot \<Rightarrow> 'g \<Rightarrow> card list \<Rightarrow> card list \<Rightarrow> int \<Rightarrow> py_error + (real \<times> 'g)" where
  "et_estimate_equity ext g hand board trials =
     (let cards = unknown_cards ext hand board;
          need_board = FINAL_BOARD_CARDS - int (length board)
      in if need_board < 0 then Inl ValueError
         else
           (case run_trials ext (best5_score ext) hand board need_board (nat trials)
                   (cards, g) (0, 0) of
              Inl e \<Rightarrow> Inl e
            | Inr ((wins, ties), deck) \<Rightarrow> Inr (equity_value wins ties trials, snd deck)))"

section \<open>Observations of the estimators, and the specification's equity\<close>

text \<open>The decks found by the trials of one call, and the scores of its trials.\<close>

definition estimate_equity_decks ::
  "'g pkrbot \<Rightarrow> 'g \<Rightarrow> card list \<Rightarrow> card list \<Rightarrow> int \<Rightarrow> card list list" where
  "estimate_equity_decks ext g kept board trials =
     trial_decks ext (evaluate ext) kept board (5 - int (length board)) (nat trials)
       (unknown_cards ext kept board, g)"

definition estimate_equity_scores ::
  "'g pkrbot \<Rightarrow> 'g \<Rightarrow> card list \<Rightarrow> card list \<Rightarrow> int \<Rightarrow> (int \<times> int) list" where
  "estimate_equity_scores ext g kept board trials =
     trial_scores ext (evaluate ext) kept board (5 - int (length board)) (nat trials)
       (unknown_cards ext kept board, g)"

definition et_estimate_equity_decks ::
  "'g pkrbot \<Rightarrow> 'g \<Rightarrow> card list \<Rightarrow> card list \<Rightarrow> int \<Rightarrow> card list list" where
  "et_estimate_equity_decks ext g hand board trials =
     (if FINAL_BOARD_CARDS - int (length board) < 0 then []
      else trial_decks ext (best5_score ext) hand board
             (FINAL_BOARD_CARDS - int (length board)) (nat trials)
             (unknown_cards ext hand board, g))"

definition et_estimate_equity_scores ::
  "'g pkrbot \<Rightarrow> 'g \<Rightarrow> card list \<Rightarrow> card list \<Rightarrow> int \<Rightarrow> (int \<times> int) list" where
  "et_estimate_equity_scores ext g hand board trials =
     (if FINAL_BOARD_CARDS - int (length board) < 0 then []
      else trial_scores ext (best5_score ext) hand board
             (FINAL_BOARD_CARDS - int (length board)) (nat trials)
             (unknown_cards ext hand board, g))"

text \<open>
  The equity of the specification for the scores of \<open>n\<close> trials: wins are the trials in
  which the player's score is strictly greater, ties those in which the scores are equal.
\<close>

definition count_wins :: "(int \<times> int) list \<Rightarrow> nat" where
  "count_wins scores = length (filter (\<lambda>(my_score, opp_score). my_score > opp_score) scores)"

definition count_ties :: "(int \<times> int) list \<Rightarrow> nat" where
  "count_ties scores = length (filter (\<lambda>(my_score, opp_score). my_score = opp_score) scores)"

definition spec_equity :: "(int \<times> int) list \<Rightarrow> int \<Rightarrow> real" where
  "spec_equity scores n =
     (if n > 0 then (real (count_wins scores) + 0.5 * real (count_ties scores)) / real_of_int n
      else 0)"

section \<open>cc_py_bot_v1/poker_utils.py: classifier and heuristic scorer\<close>

text \<open>
  Here a card is the pair \<open>[rank, suit]\<close> of Python integers that \<open>card_mapper\<close> builds:
  ranks 2 to 14, suits 0 to 3.
\<close>

type_synonym pcard = "int \<times> int"

definition well_formed_pcard :: "pcard \<Rightarrow> bool" where
  "well_formed_pcard c = (2 \<le> fst c \<and> fst c \<le> 14 \<and> 0 \<le> snd c \<and> snd c \<le> 3)"

text \<open>\<open>has_straight\<close> and \<open>straight_draw\<close>; \<open>range(1, 11)\<close> is \<open>[1..10]\<close>.\<close>

definition has_straight :: "int set \<Rightarrow> bool" where
  "has_straight rank_set =
     (let rank_set = (if 14 \<in> rank_set then rank_set \<union> {1} else rank_set)
      in list_ex (\<lambda>start. list_all (\<lambda>i. start + i \<in> rank_set) [0..4]) [1..10])"

definition straight_draw :: "int set \<Rightarrow> bool" where
  "straight_draw rank_set =
     (let rank_set = (if 14 \<in> rank_set then rank_set \<union> {1} else rank_set)
      in list_ex (\<lambda>start. length (filter (\<lambda>i. start + i \<in> rank_set) [0..4]) = 4) [1..10])"

text \<open>
  The result dictionary of \<open>evaluate_poker_hands\<close>: its eight keys are always present, so
  it is a record with one field per key (the field for the key \<open>Pair\<close> is \<open>Pair'\<close>).
\<close>

record hand_flags =
  Pair' :: nat
  TwoPair :: nat
  ThreeOfAKind :: nat
  Straight :: nat
  Flush :: nat
  FullHouse :: nat
  FourOfAKind :: nat
  StraightFlush :: nat

text \<open>\<open>{r for r, s in cards if s == suit}\<close>\<close>

definition suited_ranks :: "pcard list \<Rightarrow> int \<Rightarrow> int set" where
  "suited_ranks cards suit = set (map fst (filter (\<lambda>c. snd c = suit) cards))"

text \<open>
  \<open>evaluate_poker_hands\<close> assigns to \<open>result\<close> block by block. Each block of the source,
  named by its comment there, is one function from the result so far to the next result.
  Made hands first: ``Counting Hands'', ``Straight'', ``Flush'', ``Straight Flush''.
\<close>

definition empty_result :: hand_flags where
  "empty_result = \<lparr>Pair' = 0, TwoPair = 0, ThreeOfAKind = 0, Straight = 0, Flush = 0,
                    FullHouse = 0, FourOfAKind = 0, StraightFlush = 0\<rparr>"

definition made_counting :: "nat list \<Rightarrow> hand_flags \<Rightarrow> hand_flags" where
  "made_counting counts result =
     (let result = (if counts ! 0 \<ge> 2 then result\<lparr>Pair' := 2\<rparr> else result);
          result = (if length counts \<ge> 2 \<and> (counts ! 0 \<ge> 2 \<and> counts ! 1 \<ge> 2)
                    then result\<lparr>TwoPair := 2\<rparr> else result);
          result = (if counts ! 0 \<ge> 3 then result\<lparr>ThreeOfAKind := 2\<rparr> else result);
          result = (if counts ! 0 \<ge> 4 then result\<lparr>FourOfAKind := 2\<rparr> else result);
          result = (if length counts \<ge> 2 \<and> (counts ! 0 \<ge> 3 \<and> counts ! 1 \<ge> 2)
                    then result\<lparr>FullHouse := 2\<rparr> else result)
      in result)"

definition made_straight :: "int set \<Rightarrow> hand_flags \<Rightarrow> hand_flags" where
  "made_straight unique_ranks result =
     (if has_straight unique_ranks then result\<lparr>Straight := 2\<rparr> else result)"

definition made_flush :: "int list \<Rightarrow> hand_flags \<Rightarrow> hand_flags" where
  "made_flush flush_suits result =
     (if flush_suits \<noteq> [] then result\<lparr>Flush := 2\<rparr> else result)"

definition made_straight_flush :: "pcard list \<Rightarrow> int list \<Rightarrow> hand_flags \<Rightarrow> hand_flags" where
  "made_straight_flush cards flush_suits result =
     (if Straight result = 2 \<and> Flush result = 2
      then (if list_ex (\<lambda>suit. has_straight (suited_ranks cards suit)) flush_suits
            then result\<lparr>StraightFlush := 2\<rparr> else result)
      else result)"

text \<open>
  The draws: ``Counting Draws'', ``Flush Draw'', ``Straight Draw'', ``Full House Draw'',
  ``Straight flush draw''.
\<close>

definition draw_counting :: "pcard list \<Rightarrow> nat list \<Rightarrow> hand_flags \<Rightarrow> hand_flags" where
  "draw_counting cards counts result =
     (let result = (if Pair' result = 0 then result\<lparr>Pair' := 1\<rparr> else result);
          result = (if TwoPair result = 0 \<and> counts ! 0 = 2 \<and> length cards \<ge> 3
                    then result\<lparr>TwoPair := 1\<rparr> else result);
          result = (if ThreeOfAKind result = 0 \<and> counts ! 0 = 2
                    then result\<lparr>ThreeOfAKind := 1\<rparr> else result);
          result = (if FourOfAKind result = 0 \<and> counts ! 0 = 3
                    then result\<lparr>FourOfAKind := 1\<rparr> else result)
      in result)"

definition draw_flush :: "(int \<times> nat) list \<Rightarrow> hand_flags \<Rightarrow> hand_flags" where
  "draw_flush suit_counter result =
     (if Flush result = 0
      then (let flush_suits_d = map fst (filter (\<lambda>(s, c). c \<ge> 4) suit_counter)
            in if flush_suits_d \<noteq> [] then result\<lparr>Flush := 1\<rparr> else result)
      else result)"

definition draw_straight :: "int set \<Rightarrow> hand_flags \<Rightarrow> hand_flags" where
  "draw_straight unique_ranks result =
     (if Straight result = 0
      then (if straight_draw unique_ranks then result\<lparr>Straight := 1\<rparr> else result)
      else result)"

definition draw_full_house :: "(int \<times> nat) list \<Rightarrow> hand_flags \<Rightarrow> hand_flags" where
  "draw_full_house rank_counter result =
     (if FullHouse result = 0
      then (let trips_ranks = map fst (filter (\<lambda>(r, c). c \<ge> 3) rank_counter)
            in if trips_ranks \<noteq> [] \<and> length rank_counter \<ge> 2
               then result\<lparr>FullHouse := 1\<rparr>
               else (let pair_ranks = map fst (filter (\<lambda>(r, c). c \<ge> 2) rank_counter)
                     in if length pair_ranks \<ge> 2 then result\<lparr>FullHouse := 1\<rparr>
                        else result))
      else result)"

definition draw_straight_flush ::
  "pcard list \<Rightarrow> (int \<times> nat) list \<Rightarrow> hand_flags \<Rightarrow> hand_flags" where
  "draw_straight_flush cards suit_counter result =
     (if StraightFlush result = 0
      then (if list_ex (\<lambda>(suit, cnt). cnt \<ge> 4 \<and> straight_draw (suited_ranks cards suit))
                 suit_counter
            then result\<lparr>StraightFlush := 1\<rparr> else result)
      else result)"

text \<open>
  The whole function. \<open>counts[0]\<close> raises IndexError when there is no card at all; the
  draws are computed only when \<open>len(cards) < MAX_CARDS\<close>.
\<close>

definition evaluate_poker_hands ::
  "pcard list \<Rightarrow> pcard list \<Rightarrow> nat \<Rightarrow> py_error + hand_flags" where
  "evaluate_poker_hands hand_cards board_cards MAX_CARDS =
     (let cards = hand_cards @ board_cards;
          ranks = map fst cards;
          suits = map snd cards;
          rank_counter = Counter ranks;
          suit_counter = Counter suits;
          unique_ranks = set ranks;
          result = empty_result;
          counts = rev (sort (map snd rank_counter))
      in if counts = [] then Inl IndexError
         else
           (let result = made_counting counts result;
                result = made_straight unique_ranks result;
                flush_suits = map fst (filter (\<lambda>(s, c). c \<ge> 5) suit_counter);
                result = made_flush flush_suits result;
                result = made_straight_flush cards flush_suits result
            in if length cards < MAX_CARDS
               then
                 (let result = draw_counting cards counts result;
                      result = draw_flush suit_counter result;
                      result = draw_straight unique_ranks result;
                      result = draw_full_house rank_counter result;
                      result = draw_straight_flush cards suit_counter result
                  in Inr result)
               else Inr result))"

text \<open>The ranks that count for a straight: the ranks present, and 1 when an Ace is.\<close>

definition straight_ranks :: "pcard list \<Rightarrow> int set" where
  "straight_ranks cards =
     set (map fst cards) \<union> (if 14 \<in> set (map fst cards) then {1} else {})"

text \<open>The flags of a result, in the order of the dictionary's keys.\<close>

definition flag_values :: "hand_flags \<Rightarrow> nat list" where
  "flag_values result =
     [Pair' result, TwoPair result, ThreeOfAKind result, Straight result, Flush result,
      FullHouse result, FourOfAKind result, StraightFlush result]"

text \<open>
  \<open>poker_hand_scorer\<close>. Python floats are modelled as real numbers. \<open>math.sqrt\<close> raises
  ValueError below zero, \<open>max\<close> raises ValueError on an empty list, and the final division
  raises ZeroDivisionError when there is no card.
\<close>

definition HAND_RANKS :: "string \<rightharpoonup> nat" where
  "HAND_RANKS = map_of
     [(''HighCard'', 0), (''Pair'', 1), (''TwoPair'', 2), (''ThreeOfAKind'', 3),
      (''Straight'', 4), (''Flush'', 5), (''FullHouse'', 6), (''FourOfAKind'', 7),
      (''StraightFlush'', 8)]"

text \<open>\<open>poker_hand.items()\<close>: the keys in the order in which the dictionary was written.\<close>

definition items :: "hand_flags \<Rightarrow> (string \<times> nat) list" where
  "items result =
     [(''Pair'', Pair' result), (''TwoPair'', TwoPair result),
      (''ThreeOfAKind'', ThreeOfAKind result), (''Straight'', Straight result),
      (''Flush'', Flush result), (''FullHouse'', FullHouse result),
      (''FourOfAKind'', FourOfAKind result), (''StraightFlush'', StraightFlush result)]"

definition py_sqrt :: "int \<Rightarrow> py_error + real" where
  "py_sqrt x = (if x < 0 then Inl ValueError else Inr (sqrt (real_of_int x)))"

text \<open>\<open>sqrt(max(ranks))\<close>\<close>

definition sqrt_max :: "int list \<Rightarrow> py_error + real" where
  "sqrt_max ranks = (if ranks = [] then Inl ValueError else py_sqrt (Max (set ranks)))"

text \<open>\<open>for r, c in rank_counter.items(): score += sqrt(r)*c**2\<close>\<close>

fun count_scores :: "(int \<times> nat) list \<Rightarrow> real \<Rightarrow> py_error + real" where
  "count_scores [] score = Inr score"
| "count_scores ((r, c) # rest) score =
     (case py_sqrt r of
        Inl e \<Rightarrow> Inl e
      | Inr q \<Rightarrow> count_scores rest (score + q * real (c ^ 2)))"

text \<open>\<open>for k, v in poker_hand.items(): score += HAND_RANKS[k]*v\<close>\<close>

fun premium_scores :: "(string \<times> nat) list \<Rightarrow> real \<Rightarrow> py_error + real" where
  "premium_scores [] score = Inr score"
| "premium_scores ((k, v) # rest) score =
     (case getitem HAND_RANKS k of
        Inl e \<Rightarrow> Inl e
      | Inr h \<Rightarrow> premium_scores rest (score + real (h * v)))"

text \<open>
  One \<open>if flag == 2: score += made*sqrt(max(ranks)) elif flag == 1: score +=
  draw*sqrt(max(ranks))\<close> statement.
\<close>

definition bonus :: "nat \<Rightarrow> real \<Rightarrow> real \<Rightarrow> int list \<Rightarrow> real \<Rightarrow> py_error + real" where
  "bonus flag made draw ranks score =
     (if flag = 2
      then (case sqrt_max ranks of Inl e \<Rightarrow> Inl e | Inr q \<Rightarrow> Inr (score + made * q))
      else if flag = 1
      then (case sqrt_max ranks of Inl e \<Rightarrow> Inl e | Inr q \<Rightarrow> Inr (score + draw * q))
      else Inr score)"

definition poker_hand_scorer :: "pcard list \<Rightarrow> pcard list \<Rightarrow> py_error + real" where
  "poker_hand_scorer hand_cards board_cards =
     (case evaluate_poker_hands hand_cards board_cards 8 of
        Inl e \<Rightarrow> Inl e
      | Inr poker_hand \<Rightarrow>
     (let cards = hand_cards @ board_cards;
          ranks = map fst cards;
          rank_counter = Counter ranks;
          score = foldl (\<lambda>score r. score + 0.25 * real_of_int r) 0 ranks
      in
     (case count_scores rank_counter score of
        Inl e \<Rightarrow> Inl e
      | Inr score \<Rightarrow>
     (case premium_scores (items poker_hand) score of
        Inl e \<Rightarrow> Inl e
      | Inr score \<Rightarrow>
     (case bonus (Straight poker_hand) 10 7 ranks score of
        Inl e \<Rightarrow> Inl e
      | Inr score \<Rightarrow>
     (case bonus (Flush poker_hand) 12 8 ranks score of
        Inl e \<Rightarrow> Inl e
      | Inr score \<Rightarrow>
     (case bonus (StraightFlush poker_hand) 20 10 ranks score of
        Inl e \<Rightarrow> Inl e
      | Inr score \<Rightarrow>
     (if length cards = 0 then Inl ZeroDivisionError
      else Inr (score / real (length cards))))))))))"

text \<open>
  The formula of the specification for the heuristic score of \<open>cards\<close> whose classifier
  result is \<open>flags\<close>: rank sum, multiplicity sum, category ordinals times flags, the three
  bonuses, all divided by the number of cards.
\<close>

definition spec_bonus :: "nat \<Rightarrow> real \<Rightarrow> real \<Rightarrow> real \<Rightarrow> real" where
  "spec_bonus flag made draw root_max =
     (if flag = 2 then made * root_max else if flag = 1 then draw * root_max else 0)"

definition spec_score :: "pcard list \<Rightarrow> hand_flags \<Rightarrow> real" where
  "spec_score cards flags =
     (let ranks = map fst cards;
          root_max = sqrt (real_of_int (Max (set ranks)))
      in ((\<Sum>r\<leftarrow>ranks. 0.25 * real_of_int r)
          + (\<Sum>r\<in>set ranks. sqrt (real_of_int r) * real ((count_list ranks r) ^ 2))
          + real (1 * Pair' flags + 2 * TwoPair flags + 3 * ThreeOfAKind flags
                  + 4 * Straight flags + 5 * Flush flags + 6 * FullHouse flags
                  + 7 * FourOfAKind flags + 8 * StraightFlush flags)
          + spec_bonus (Straight flags) 10 7 root_max
          + spec_bonus (Flush flags) 12 8 root_max
          + spec_bonus (StraightFlush flags) 20 10 root_max)
         / real (length cards))"

text \<open>The count stored for a key in a \<open>Counter\<close>, 0 for a missing key.\<close>

definition cnt :: "('a \<times> nat) list \<Rightarrow> 'a \<Rightarrow> nat" where
  "cnt kvs k = (case map_of kvs k of None \<Rightarrow> 0 | Some n \<Rightarrow> n)"

text \<open>No category of a result carries the draw flag 1.\<close>

definition no_draw :: "hand_flags \<Rightarrow> bool" where
  "no_draw result = (1 \<notin> set (flag_values result))"

section \<open>Suit relabelling and well-formed cards\<close>

text \<open>A relabelling \<open>perm\<close> of suit symbols applied to one card: only character 1 changes.\<close>

definition relabel :: "(char \<Rightarrow> char) \<Rightarrow> card \<Rightarrow> card" where
  "relabel perm c = (case c of rank # suit # rest \<Rightarrow> rank # perm suit # rest | _ \<Rightarrow> c)"

text \<open>The suit symbols that occur in a card sequence (cards too short to have one are skipped).\<close>

fun suit_list :: "card list \<Rightarrow> char list" where
  "suit_list [] = []"
| "suit_list (c # cs) =
     (case rank_suit c of Inl e \<Rightarrow> suit_list cs | Inr (rank, suit) \<Rightarrow> suit # suit_list cs)"

definition suits_of :: "card list \<Rightarrow> char set" where
  "suits_of cards = set (suit_list cards)"

text \<open>A well-formed card is a rank symbol followed by one of the four suit symbols.\<close>

definition well_formed_card :: "card \<Rightarrow> bool" where
  "well_formed_card c =
     (case c of [rank, suit] \<Rightarrow> rank \<in> set RANKS \<and> suit \<in> set SUITS | _ \<Rightarrow> False)"

definition well_formed :: "card list \<Rightarrow> bool" where
  "well_formed cards = list_all well_formed_card cards"


text \<open>
  Position by position, an output card \<open>d\<close> keeps the rank of the input card \<open>c\<close> and
  carries one of the four canonical suit labels.
\<close>

definition same_rank :: "card \<Rightarrow> card \<Rightarrow> bool" where
  "same_rank c d =
     (case rank_suit c of
        Inl e \<Rightarrow> False
      | Inr (rank, suit) \<Rightarrow> length d = 2 \<and> d ! 0 = rank \<and> d ! 1 \<in> set SUITS)"

text \<open>A concrete permutation of the suit symbols: spades and hearts exchanged.\<close>

definition swap_sh :: "char \<Rightarrow> char" where
  "swap_sh c = (if c = CHR ''s'' then CHR ''h'' else if c = CHR ''h'' then CHR ''s'' else c)"

chapter \<open>Properties\<close>

section \<open>The canonicalizer loop\<close>

lemma canonicalize_loop_out:
  "canonicalize_loop m ns out cs = map_sum id ((@) out) (canonicalize_loop m ns [] cs)"
proof (induction cs arbitrary: m ns out)
  case Nil
  show ?case by simp
next
  case (Cons c cs)
  show ?case
    by (simp add: Cons.IH [of _ _ "out @ _"] Cons.IH [of _ _ "[_]"] sum.map_comp comp_def
             split: sum.splits prod.splits option.splits list.splits)
qed

lemma canonicalize_loop_Inr_iff:
  "canonicalize_loop m ns out cs = Inr r \<longleftrightarrow>
     (\<exists>r'. r = out @ r' \<and> canonicalize_loop m ns [] cs = Inr r')"
  by (subst canonicalize_loop_out) (cases "canonicalize_loop m ns [] cs"; auto)

lemma rank_suit_relabel:
  "rank_suit (relabel perm c) =
     (case rank_suit c of Inl e \<Rightarrow> Inl e | Inr (r, s) \<Rightarrow> Inr (r, perm s))"
  by (simp add: rank_suit_def relabel_def split: list.splits)

lemma rank_suit_suits_of: "rank_suit c = Inr (r, s) \<Longrightarrow> s \<in> suits_of (c # cs)"
  by (simp add: suits_of_def)

lemma suits_of_Cons_subset: "suits_of cs \<subseteq> suits_of (c # cs)"
  by (auto simp: suits_of_def split: sum.splits)

text \<open>
  Relabelling: the two runs stay in step as long as the dictionary of the relabelled run
  is the dictionary of the original run read through \<open>perm\<close>.
\<close>

lemma canonicalize_loop_relabel:
  assumes "inj_on perm S" "suits_of cs \<subseteq> S" "\<forall>s\<in>S. m' (perm s) = m s"
  shows "canonicalize_loop m' ns out (map (relabel perm) cs) = canonicalize_loop m ns out cs"
  using assms
proof (induction cs arbitrary: m m' ns out)
  case Nil
  show ?case by simp
next
  case (Cons c cs)
  have sub: "suits_of cs \<subseteq> S"
    using Cons.prems(2) suits_of_Cons_subset by blast
  show ?case
  proof (cases "rank_suit c")
    case (Inl e)
    then show ?thesis by (simp add: rank_suit_relabel)
  next
    case (Inr rs)
    obtain r s where rs: "rs = (r, s)" by (cases rs)
    have sS: "s \<in> S"
      using Inr rs Cons.prems(2) rank_suit_suits_of by blast
    have eq: "m' (perm s) = m s" using Cons.prems(3) sS by blast
    show ?thesis
    proof (cases "m s")
      case (Some t)
      then show ?thesis
        using Inr rs eq Cons.IH [OF Cons.prems(1) sub Cons.prems(3)]
        by (simp add: rank_suit_relabel)
    next
      case None
      show ?thesis
      proof (cases "ns = []")
        case True
        then show ?thesis using Inr rs eq None by (simp add: rank_suit_relabel)
      next
        case False
        then obtain n rest where ns: "ns = n # rest" by (cases ns) auto
        have upd: "\<forall>s'\<in>S. (m'(perm s \<mapsto> n)) (perm s') = (m(s \<mapsto> n)) s'"
          using Cons.prems(1,3) sS by (auto simp: inj_on_def)
        have step: "canonicalize_loop (m'(perm s \<mapsto> n)) rest (out @ [[r, n]])
            (map (relabel perm) cs) = canonicalize_loop (m(s \<mapsto> n)) rest (out @ [[r, n]]) cs"
          by (rule Cons.IH [OF Cons.prems(1) sub upd])
        show ?thesis
          using Inr rs eq None ns
          by (simp add: rank_suit_relabel step del: fun_upd_apply)
      qed
    qed
  qed
qed

text \<open>Ranks and positions: each output card is the input card's rank and a canonical label.\<close>

lemma canonicalize_loop_shape:
  assumes "canonicalize_loop m ns [] cs = Inr r" "ran m \<union> set ns \<subseteq> set SUITS"
  shows "list_all2 same_rank cs r"
  using assms
proof (induction cs arbitrary: m ns r)
  case Nil
  then show ?case by simp
next
  case (Cons c cs)
  from Cons.prems(1) obtain rk s where rs: "rank_suit c = Inr (rk, s)"
    by (cases "rank_suit c") auto
  show ?case
  proof (cases "m s")
    case (Some t)
    with Cons.prems(1) rs obtain r' where r: "r = [rk, t] # r'"
      and rec: "canonicalize_loop m ns [] cs = Inr r'"
      by (auto simp: canonicalize_loop_Inr_iff [of _ _ "[_]"])
    have "t \<in> set SUITS" using Some Cons.prems(2) by (auto simp: ran_def)
    then have "same_rank c [rk, t]" using rs by (simp add: same_rank_def)
    then show ?thesis using r Cons.IH [OF rec Cons.prems(2)] by simp
  next
    case None
    with Cons.prems(1) rs obtain n rest where ns: "ns = n # rest"
      by (cases ns) auto
    with Cons.prems(1) rs None obtain r' where r: "r = [rk, n] # r'"
      and rec: "canonicalize_loop (m(s \<mapsto> n)) rest [] cs = Inr r'"
      by (auto simp: canonicalize_loop_Inr_iff [of _ _ "[_]"])
    have inv: "ran (m(s \<mapsto> n)) \<union> set rest \<subseteq> set SUITS"
      using Cons.prems(2) ns None by (auto simp: ran_def)
    have "n \<in> set SUITS" using Cons.prems(2) ns by auto
    then have "same_rank c [rk, n]" using rs by (simp add: same_rank_def)
    then show ?thesis using r Cons.IH [OF rec inv] by simp
  qed
qed

lemma well_formed_card_rank_suit:
  "well_formed_card c \<Longrightarrow> \<exists>r s. rank_suit c = Inr (r, s) \<and> s \<in> set SUITS"
  by (auto simp: well_formed_card_def rank_suit_def split: list.splits)

lemma well_formed_suits_of: "well_formed cs \<Longrightarrow> suits_of cs \<subseteq> set SUITS"
proof (induction cs)
  case Nil
  show ?case by (simp add: suits_of_def)
next
  case (Cons c cs)
  then have wc: "well_formed_card c" and sub: "suits_of cs \<subseteq> set SUITS"
    by (simp_all add: well_formed_def)
  from well_formed_card_rank_suit [OF wc] sub show ?case
    by (auto simp: suits_of_def)
qed

text \<open>
  The iterator over \<open>shdc\<close> is never exhausted on well-formed cards: it always holds at
  least as many labels as there are suit symbols not yet in the dictionary.
\<close>

lemma canonicalize_loop_total:
  assumes "well_formed cs" "card (set SUITS - dom m) \<le> length ns"
  shows "\<exists>r. canonicalize_loop m ns out cs = Inr r"
  using assms
proof (induction cs arbitrary: m ns out)
  case Nil
  show ?case by simp
next
  case (Cons c cs)
  from Cons.prems(1) have wc: "well_formed_card c" and wcs: "well_formed cs"
    by (simp_all add: well_formed_def)
  from well_formed_card_rank_suit [OF wc] obtain rk s
    where rs: "rank_suit c = Inr (rk, s)" and sS: "s \<in> set SUITS" by blast
  show ?case
  proof (cases "m s")
    case (Some t)
    then show ?thesis using rs Cons.IH [OF wcs Cons.prems(2)] by simp
  next
    case None
    have fin: "finite (set SUITS - dom m)" by simp
    have mem: "s \<in> set SUITS - dom m" using sS None by auto
    then have pos: "0 < card (set SUITS - dom m)" using fin card_gt_0_iff by blast
    with Cons.prems(2) have "0 < length ns" by linarith
    then obtain n rest where ns: "ns = n # rest"
      by (cases ns) auto
    have "set SUITS - dom (m(s \<mapsto> n)) = (set SUITS - dom m) - {s}" by auto
    then have "card (set SUITS - dom (m(s \<mapsto> n))) = card (set SUITS - dom m) - 1"
      using mem fin by simp
    then have inv: "card (set SUITS - dom (m(s \<mapsto> n))) \<le> length rest"
      using Cons.prems(2) ns by simp
    from Cons.IH [OF wcs inv] show ?thesis using rs None ns by (simp del: fun_upd_apply)
  qed
qed

text \<open>
  Idempotence: on its own output the loop meets every label in the order \<open>shdc\<close>, so the
  second run's dictionary is the identity on the labels handed out so far.
\<close>

lemma canonicalize_loop_idem:
  assumes "canonicalize_loop m ns [] cs = Inr r" "pre @ ns = ''shdc''" "ran m = set pre"
    "\<forall>c. m2 c = (if c \<in> set pre then Some c else None)"
  shows "canonicalize_loop m2 ns [] r = Inr r"
  using assms
proof (induction cs arbitrary: m m2 ns pre r)
  case Nil
  then show ?case by simp
next
  case (Cons c cs)
  from Cons.prems(1) obtain rk s where rs: "rank_suit c = Inr (rk, s)"
    by (cases "rank_suit c") auto
  show ?case
  proof (cases "m s")
    case (Some t)
    with Cons.prems(1) rs obtain r' where r: "r = [rk, t] # r'"
      and rec: "canonicalize_loop m ns [] cs = Inr r'"
      by (auto simp: canonicalize_loop_Inr_iff [of _ _ "[_]"])
    have "t \<in> set pre" using Some Cons.prems(3) by (auto simp: ran_def)
    then have m2t: "m2 t = Some t" using Cons.prems(4) by simp
    have "canonicalize_loop m2 ns [] r' = Inr r'"
      by (rule Cons.IH [OF rec Cons.prems(2,3,4)])
    then show ?thesis using r m2t
      by (simp add: rank_suit_def canonicalize_loop_Inr_iff [of _ _ "[_]"])
  next
    case None
    with Cons.prems(1) rs obtain n rest where ns: "ns = n # rest"
      by (cases ns) auto
    with Cons.prems(1) rs None obtain r' where r: "r = [rk, n] # r'"
      and rec: "canonicalize_loop (m(s \<mapsto> n)) rest [] cs = Inr r'"
      by (auto simp: canonicalize_loop_Inr_iff [of _ _ "[_]"])
    have "distinct (pre @ n # rest)" using Cons.prems(2) ns by simp
    then have nnot: "n \<notin> set pre" by simp
    then have m2n: "m2 n = None" using Cons.prems(4) by simp
    have pre': "(pre @ [n]) @ rest = ''shdc''" using Cons.prems(2) ns by simp
    have ran': "ran (m(s \<mapsto> n)) = set (pre @ [n])"
      using None Cons.prems(3) by simp
    have m2': "\<forall>c. (m2(n \<mapsto> n)) c = (if c \<in> set (pre @ [n]) then Some c else None)"
      using Cons.prems(4) by simp
    have "canonicalize_loop (m2(n \<mapsto> n)) rest [] r' = Inr r'"
      by (rule Cons.IH [OF rec pre' ran' m2'])
    then show ?thesis using r m2n ns
      by (simp add: rank_suit_def canonicalize_loop_Inr_iff [of _ _ "[_]"] del: fun_upd_apply)
  qed
qed

text \<open>Cards scanned later never change what was already written for earlier cards.\<close>

lemma canonicalize_loop_prefix:
  assumes "canonicalize_loop m ns out (xs @ ys) = Inr r"
  shows "canonicalize_loop m ns out xs = Inr (take (length out + length xs) r)"
  using assms
proof (induction xs arbitrary: m ns out)
  case Nil
  then show ?case by (auto simp: canonicalize_loop_Inr_iff [of _ _ out])
next
  case (Cons c xs)
  from Cons.prems obtain rk s where rs: "rank_suit c = Inr (rk, s)"
    by (cases "rank_suit c") auto
  show ?case
  proof (cases "m s")
    case (Some t)
    then show ?thesis using Cons.prems rs Cons.IH [of m ns "out @ [[rk, t]]"] by simp
  next
    case None
    with Cons.prems rs obtain n rest where ns: "ns = n # rest"
      by (cases ns) auto
    with Cons.prems rs None
    have "canonicalize_loop (m(s \<mapsto> n)) rest (out @ [[rk, n]]) (xs @ ys) = Inr r"
      by simp
    from Cons.IH [OF this] show ?thesis
      using rs None ns by (simp del: fun_upd_apply)
  qed
qed

lemma canonicalize_cards_total:
  "well_formed cs \<Longrightarrow> \<exists>r. canonicalize_cards cs = Inr r"
  unfolding canonicalize_cards_def
  by (rule canonicalize_loop_total) (simp_all add: SUITS_def card_insert_if)

lemma canonicalize_cards_relabel:
  "inj_on perm (suits_of cs) \<Longrightarrow>
     canonicalize_cards (map (relabel perm) cs) = canonicalize_cards cs"
  unfolding canonicalize_cards_def
  by (rule canonicalize_loop_relabel [where S = "suits_of cs"]) simp_all

lemma canonicalize_cards_shape:
  "canonicalize_cards cs = Inr r \<Longrightarrow> list_all2 same_rank cs r"
  unfolding canonicalize_cards_def
  by (erule canonicalize_loop_shape) (simp add: SUITS_def)

lemma canonicalize_cards_idem:
  "canonicalize_cards cs = Inr r \<Longrightarrow> canonicalize_cards r = Inr r"
  unfolding canonicalize_cards_def
  by (erule canonicalize_loop_idem [where pre = "[]"]) simp_all

lemma canonicalize_cards_prefix:
  "canonicalize_cards (xs @ ys) = Inr r \<Longrightarrow>
     canonicalize_cards xs = Inr (take (length xs) r)"
  unfolding canonicalize_cards_def
  using canonicalize_loop_prefix [of Map.empty "''shdc''" "[]" xs ys r] by simp

section \<open>The three copies of the canonicalizer agree\<close>

lemma et_canonicalize_loop_eq:
  "et_canonicalize_loop m ns out cs = canonicalize_loop m ns out cs"
  by (induction cs arbitrary: m ns out)
     (simp_all split: sum.splits prod.splits option.splits list.splits)

lemma player_canonicalize_loop_eq:
  "player_canonicalize_loop m ns out cs = canonicalize_loop m ns out cs"
  by (induction cs arbitrary: m ns out)
     (simp_all split: sum.splits prod.splits option.splits list.splits)

lemma et_canonicalize_cards_eq: "et_canonicalize_cards cs = canonicalize_cards cs"
  by (simp add: et_canonicalize_cards_def canonicalize_cards_def et_canonicalize_loop_eq)

lemma player_canonicalize_cards_eq: "player_canonicalize_cards cs = canonicalize_cards cs"
  by (simp add: player_canonicalize_cards_def canonicalize_cards_def
        player_canonicalize_loop_eq)

lemma player_hand_key_eq: "player_hand_key hand board = hand_key hand board"
  by (simp add: player_hand_key_def hand_key_def player_canonicalize_cards_eq)

lemma player_flop_signature_eq: "player_flop_signature board hand = flop_signature board hand"
  unfolding player_flop_signature_def flop_signature_def player_canonicalize_cards_eq RANKS_def
  by (rule refl)

lemma player_equity_key_eq: "player_equity_key hand board = hand_board_key hand board"
  by (simp add: player_equity_key_def hand_board_key_def player_canonicalize_cards_eq
        et_canonicalize_cards_eq)

lemma flop_signature_canon_error:
  "canonicalize_cards (hand @ board) = Inl e \<Longrightarrow> board \<noteq> [] \<Longrightarrow>
     flop_signature board hand = Inl e"
  by (simp add: flop_signature_def)

lemma player_discard_lookup_key_eq:
  "player_discard_lookup_key hand board = discard_table_key hand board"
proof (cases "canonicalize_cards (hand @ board)")
  case (Inl e)
  then have hk: "hand_key hand board = Inl e" by (simp add: hand_key_def)
  show ?thesis
  proof (cases "board = []")
    case True
    then show ?thesis using hk
      by (simp add: player_discard_lookup_key_def discard_table_key_def player_hand_key_eq
            player_flop_signature_eq flop_signature_def)
  next
    case False
    then show ?thesis using hk flop_signature_canon_error [OF Inl False]
      by (simp add: player_discard_lookup_key_def discard_table_key_def player_hand_key_eq
            player_flop_signature_eq)
  qed
next
  case (Inr c)
  then obtain k where hk: "hand_key hand board = Inr k" by (simp add: hand_key_def)
  then show ?thesis
    by (simp add: player_discard_lookup_key_def discard_table_key_def player_hand_key_eq
            player_flop_signature_eq split: sum.splits)
qed

section \<open>Claims about the keys\<close>

text \<open>
  C4. For every hand and board the runtime lookup path of \<open>player.py\<close> produces the same
  key as the offline build path, character for character and exception for exception:
  \<open>_hand_key\<close> agrees with \<open>hand_key\<close>, \<open>_flop_signature\<close> with \<open>flop_signature\<close>, the
  discard-table key looked up at runtime with the key stored by \<open>build_table\<close>, and
  \<open>_equity_key\<close> with \<open>hand_board_key\<close>.
\<close>

theorem key_format_parity:
  "player_hand_key hand board = hand_key hand board
   \<and> player_flop_signature board hand = flop_signature board hand
   \<and> player_discard_lookup_key hand board = discard_table_key hand board
   \<and> player_equity_key hand board = hand_board_key hand board"
  by (simp add: player_hand_key_eq player_flop_signature_eq player_discard_lookup_key_eq
        player_equity_key_eq)

theorem key_format_parity_witness:
  "player_discard_lookup_key [''Th'', ''9h'', ''3c''] [''Ah'', ''Kh'', ''Ad'', ''Tc'']
     = Inr ''3h_9s_Ts|two|paired:1|hi:A|spread:4|connect:med''
   \<and> discard_table_key [''Th'', ''9h'', ''3c''] [''Ah'', ''Kh'', ''Ad'', ''Tc'']
     = Inr ''3h_9s_Ts|two|paired:1|hi:A|spread:4|connect:med''
   \<and> player_equity_key [''Th'', ''9h'', ''3c''] [''Ah'', ''Kh'', ''Ad'', ''Tc'']
     = Inr ''3h_9s_Ts|Ad_As_Ks_Th''
   \<and> hand_board_key [''Th'', ''9h'', ''3c''] [''Ah'', ''Kh'', ''Ad'', ''Tc'']
     = Inr ''3h_9s_Ts|Ad_As_Ks_Th''"
proof -
  have b: "discard_table_key [''Th'', ''9h'', ''3c''] [''Ah'', ''Kh'', ''Ad'', ''Tc'']
     = Inr ''3h_9s_Ts|two|paired:1|hi:A|spread:4|connect:med''"
    by code_simp
  have e: "hand_board_key [''Th'', ''9h'', ''3c''] [''Ah'', ''Kh'', ''Ad'', ''Tc'']
     = Inr ''3h_9s_Ts|Ad_As_Ks_Th''"
    by code_simp
  show ?thesis
    using key_format_parity [of "[''Th'', ''9h'', ''3c'']" "[''Ah'', ''Kh'', ''Ad'', ''Tc'']"] b e
    by simp
qed

section \<open>Claims about the canonicalizer\<close>

text \<open>
  C1. For every sequence \<open>x\<close> of well-formed cards and every permutation \<open>perm\<close> of the four
  suit symbols applied to all cards of \<open>x\<close>, the canonicalizer (build side and runtime side)
  returns the same output for \<open>x\<close> and for the relabelled \<open>x\<close>; the output has the length of
  the input, and at every position it keeps the input card's rank.
\<close>

theorem canonicalize_suit_invariant:
  assumes "well_formed x" and "bij_betw perm (set SUITS) (set SUITS)"
  shows "\<exists>out. canonicalize_cards x = Inr out
           \<and> canonicalize_cards (map (relabel perm) x) = Inr out
           \<and> player_canonicalize_cards x = Inr out
           \<and> player_canonicalize_cards (map (relabel perm) x) = Inr out
           \<and> length out = length x
           \<and> (\<forall>i<length x. same_rank (x ! i) (out ! i))"
proof -
  from canonicalize_cards_total [OF assms(1)] obtain out
    where out: "canonicalize_cards x = Inr out" by blast
  have "inj_on perm (set SUITS)" using assms(2) by (rule bij_betw_imp_inj_on)
  then have "inj_on perm (suits_of x)"
    using well_formed_suits_of [OF assms(1)] by (rule inj_on_subset)
  then have rel: "canonicalize_cards (map (relabel perm) x) = Inr out"
    using out by (simp add: canonicalize_cards_relabel)
  have "list_all2 same_rank x out" using out by (rule canonicalize_cards_shape)
  then have "length out = length x" "\<forall>i<length x. same_rank (x ! i) (out ! i)"
    by (simp_all add: list_all2_conv_all_nth)
  with out rel show ?thesis by (simp add: player_canonicalize_cards_eq)
qed

theorem canonicalize_suit_invariant_witness:
  "well_formed [''Ah'', ''Kd'', ''Qh'', ''2s''] \<and> bij_betw swap_sh (set SUITS) (set SUITS)
   \<and> canonicalize_cards [''Ah'', ''Kd'', ''Qh'', ''2s''] = Inr [''As'', ''Kh'', ''Qs'', ''2d'']
   \<and> canonicalize_cards (map (relabel swap_sh) [''Ah'', ''Kd'', ''Qh'', ''2s''])
       = Inr [''As'', ''Kh'', ''Qs'', ''2d'']"
proof -
  have w: "well_formed [''Ah'', ''Kd'', ''Qh'', ''2s'']"
    by (simp add: well_formed_def well_formed_card_def RANKS_def SUITS_def)
  have b: "bij_betw swap_sh (set SUITS) (set SUITS)"
    by (auto simp: bij_betw_def inj_on_def SUITS_def swap_sh_def)
  have c: "canonicalize_cards [''Ah'', ''Kd'', ''Qh'', ''2s''] = Inr [''As'', ''Kh'', ''Qs'', ''2d'']"
    by (simp add: canonicalize_cards_def rank_suit_def)
  from canonicalize_suit_invariant [OF w b] c w b show ?thesis by auto
qed

text \<open>
  C2. The canonicalizer is idempotent: canonicalizing its own output returns that output
  again (and an input on which it raises makes the composition raise the same error).
\<close>

theorem canonicalize_idempotent:
  "(case canonicalize_cards x of Inl e \<Rightarrow> Inl e | Inr y \<Rightarrow> canonicalize_cards y)
     = canonicalize_cards x
   \<and> (case player_canonicalize_cards x of Inl e \<Rightarrow> Inl e | Inr y \<Rightarrow> player_canonicalize_cards y)
     = player_canonicalize_cards x"
  by (auto simp: player_canonicalize_cards_eq canonicalize_cards_idem split: sum.splits)

theorem canonicalize_idempotent_witness:
  "canonicalize_cards [''Ah'', ''Kd'', ''Qh'', ''2s''] = Inr [''As'', ''Kh'', ''Qs'', ''2d'']
   \<and> canonicalize_cards [''As'', ''Kh'', ''Qs'', ''2d''] = Inr [''As'', ''Kh'', ''Qs'', ''2d'']"
proof -
  have c: "canonicalize_cards [''Ah'', ''Kd'', ''Qh'', ''2s''] = Inr [''As'', ''Kh'', ''Qs'', ''2d'']"
    by (simp add: canonicalize_cards_def rank_suit_def)
  from canonicalize_idempotent [of "[''Ah'', ''Kd'', ''Qh'', ''2s'']"] c show ?thesis by simp
qed

lemma hand_key_prefix:
  assumes "hand_key hand board = Inr k"
  shows "hand_key hand [] = Inr k"
proof -
  from assms obtain c where c: "canonicalize_cards (hand @ board) = Inr c"
    and k: "k = join ''_'' (sort (take (length hand) c))"
    by (auto simp: hand_key_def split: sum.splits)
  from canonicalize_cards_prefix [OF c] k show ?thesis
    by (simp add: hand_key_def)
qed

lemma well_formed_append: "well_formed (xs @ ys) \<longleftrightarrow> well_formed xs \<and> well_formed ys"
  by (simp add: well_formed_def)

text \<open>
  C10. For well-formed cards the canonical hand key does not depend on the board:
  \<open>hand_key hand board\<close> is \<open>hand_key hand []\<close>, at build time and at runtime, so the board
  enters a discard-table key only through the bucket signature.
\<close>

theorem hand_key_board_independent:
  assumes "well_formed hand" and "well_formed board"
  shows "\<exists>k. hand_key hand [] = Inr k \<and> hand_key hand board = Inr k
           \<and> player_hand_key hand [] = Inr k \<and> player_hand_key hand board = Inr k
           \<and> discard_table_key hand board
               = (case flop_signature board hand of
                    Inl e \<Rightarrow> Inl e | Inr sig \<Rightarrow> Inr (k @ ''|'' @ sig))"
proof -
  have "well_formed (hand @ board)" using assms by (simp add: well_formed_append)
  from canonicalize_cards_total [OF this] obtain k where k: "hand_key hand board = Inr k"
    by (auto simp: hand_key_def)
  from hand_key_prefix [OF k] k show ?thesis
    by (simp add: player_hand_key_eq discard_table_key_def split: sum.splits)
qed

theorem hand_key_board_independent_witness:
  "well_formed [''Th'', ''9h'', ''3c''] \<and> well_formed [''Ah'', ''Kh'', ''Ad'', ''Tc'']
   \<and> hand_key [''Th'', ''9h'', ''3c''] [] = Inr ''3h_9s_Ts''
   \<and> hand_key [''Th'', ''9h'', ''3c''] [''Ah'', ''Kh'', ''Ad'', ''Tc''] = Inr ''3h_9s_Ts''"
proof -
  have w1: "well_formed [''Th'', ''9h'', ''3c'']"
    by (simp add: well_formed_def well_formed_card_def RANKS_def SUITS_def)
  have w2: "well_formed [''Ah'', ''Kh'', ''Ad'', ''Tc'']"
    by (simp add: well_formed_def well_formed_card_def RANKS_def SUITS_def)
  have k: "hand_key [''Th'', ''9h'', ''3c''] [] = Inr ''3h_9s_Ts''"
    by code_simp
  from hand_key_board_independent [OF w1 w2] k w1 w2 show ?thesis by auto
qed

section \<open>The classifier\<close>

lemma no_draw_Let: "no_draw a \<Longrightarrow> (\<And>x. no_draw x \<Longrightarrow> no_draw (f x)) \<Longrightarrow> no_draw (Let a f)"
  by simp

lemma no_draw_if: "(c \<Longrightarrow> no_draw a) \<Longrightarrow> (\<not> c \<Longrightarrow> no_draw b) \<Longrightarrow> no_draw (if c then a else b)"
  by simp

lemma no_draw_made_counting: "no_draw r \<Longrightarrow> no_draw (made_counting counts r)"
  unfolding made_counting_def
  by (intro no_draw_Let no_draw_if; (assumption | simp add: no_draw_def flag_values_def))

lemma no_draw_made_straight: "no_draw r \<Longrightarrow> no_draw (made_straight ur r)"
  by (simp add: made_straight_def no_draw_def flag_values_def)

lemma no_draw_made_flush: "no_draw r \<Longrightarrow> no_draw (made_flush fs r)"
  by (simp add: made_flush_def no_draw_def flag_values_def)

lemma no_draw_made_straight_flush: "no_draw r \<Longrightarrow> no_draw (made_straight_flush cards fs r)"
  by (simp add: made_straight_flush_def no_draw_def flag_values_def)

lemma no_draw_empty_result: "no_draw empty_result"
  by (simp add: empty_result_def no_draw_def flag_values_def)

lemma counter_add_not_Nil: "counter_add x kvs \<noteq> []"
  by (cases kvs) (auto split: if_splits)

lemma foldl_counter_add_not_Nil:
  "acc \<noteq> [] \<or> xs \<noteq> [] \<Longrightarrow> foldl (\<lambda>acc x. counter_add x acc) acc xs \<noteq> []"
  by (induction xs arbitrary: acc) (auto simp: counter_add_not_Nil)

lemma Counter_not_Nil: "xs \<noteq> [] \<Longrightarrow> Counter xs \<noteq> []"
  by (simp add: Counter_def foldl_counter_add_not_Nil)

lemma counts_not_Nil:
  assumes "cards \<noteq> []"
  shows "rev (sort (map snd (Counter (map fst cards)))) \<noteq> []"
proof -
  have "Counter (map fst cards) \<noteq> []"
    using assms by (intro Counter_not_Nil) simp
  then have "length (sort (map snd (Counter (map fst cards)))) \<noteq> 0"
    by simp
  then show ?thesis by fastforce
qed

lemma evaluate_poker_hands_full:
  assumes "hand @ board \<noteq> []" "\<not> length (hand @ board) < m"
  shows "\<exists>result. evaluate_poker_hands hand board m = Inr result \<and> no_draw result"
proof -
  from counts_not_Nil [OF assms(1)] show ?thesis using assms(2)
    by (simp add: evaluate_poker_hands_def Let_def no_draw_made_counting no_draw_made_straight
          no_draw_made_flush no_draw_made_straight_flush no_draw_empty_result)
qed

lemma evaluate_poker_hands_total:
  assumes "hand @ board \<noteq> []"
  shows "\<exists>result. evaluate_poker_hands hand board m = Inr result"
proof -
  from counts_not_Nil [OF assms(1)] show ?thesis
    by (simp add: evaluate_poker_hands_def Let_def)
qed


lemma Straight_made_counting: "Straight (made_counting counts r) = Straight r"
  by (simp add: made_counting_def Let_def)

lemma Straight_draw_counting: "Straight (draw_counting cards counts r) = Straight r"
  by (simp add: draw_counting_def Let_def)

lemma Straight_made_straight:
  "Straight (made_straight ur r) = (if has_straight ur then 2 else Straight r)"
  by (simp add: made_straight_def)

lemma Straight_made_flush: "Straight (made_flush fs r) = Straight r"
  by (simp add: made_flush_def)

lemma Straight_made_straight_flush: "Straight (made_straight_flush cards fs r) = Straight r"
  by (simp add: made_straight_flush_def)

lemma Straight_draw_flush: "Straight (draw_flush sc r) = Straight r"
  by (simp add: draw_flush_def Let_def)

lemma Straight_draw_straight:
  "Straight (draw_straight ur r) = (if Straight r = 0 \<and> straight_draw ur then 1 else Straight r)"
  by (simp add: draw_straight_def)

lemma Straight_draw_full_house: "Straight (draw_full_house rc r) = Straight r"
  by (simp add: draw_full_house_def Let_def)

lemma Straight_draw_straight_flush: "Straight (draw_straight_flush cards sc r) = Straight r"
  by (simp add: draw_straight_flush_def)

lemmas Straight_blocks = Straight_made_counting Straight_draw_counting Straight_made_straight
  Straight_made_flush Straight_made_straight_flush Straight_draw_flush Straight_draw_straight
  Straight_draw_full_house Straight_draw_straight_flush

lemma Straight_evaluate:
  assumes "evaluate_poker_hands hand board m = Inr result"
  shows "Straight result =
     (if has_straight (set (map fst (hand @ board))) then 2
      else if length (hand @ board) < m \<and> straight_draw (set (map fst (hand @ board))) then 1
      else 0)"
proof (cases "length (hand @ board) < m")
  case True
  with assms [symmetric] show ?thesis
    by (simp add: evaluate_poker_hands_def Let_def Straight_blocks empty_result_def
          split: if_splits)
next
  case False
  with assms [symmetric] show ?thesis
    by (simp add: evaluate_poker_hands_def Let_def Straight_blocks empty_result_def
          split: if_splits)
qed

lemma with_virtual_ace:
  "(if 14 \<in> set (map fst cards) then set (map fst cards) \<union> {1} else set (map fst cards))
     = straight_ranks cards"
  by (auto simp: straight_ranks_def)

lemma has_straight_windows:
  "has_straight (set (map fst cards))
     \<longleftrightarrow> (\<exists>start\<in>{1..10}. \<forall>i\<in>{0..4}. start + i \<in> straight_ranks cards)"
  unfolding has_straight_def Let_def with_virtual_ace
  by (simp add: list_ex_iff list_all_iff)

lemma window_hits:
  fixes start :: int
  shows "length (filter (\<lambda>i. start + i \<in> R) [0..4]) = card ({start..start + 4} \<inter> R)"
proof -
  have "length (filter (\<lambda>i. start + i \<in> R) [0..4]) = card ({i. start + i \<in> R} \<inter> set [0..4])"
    by (rule distinct_length_filter) simp
  also have "\<dots> = card ((\<lambda>i. start + i) ` ({i. start + i \<in> R} \<inter> {0..4}))"
    by (simp add: card_image)
  also have "(\<lambda>i. start + i) ` ({i. start + i \<in> R} \<inter> {0..4}) = {start..start + 4} \<inter> R"
  proof (intro set_eqI iffI)
    fix x assume "x \<in> (\<lambda>i. start + i) ` ({i. start + i \<in> R} \<inter> {0..4})"
    then show "x \<in> {start..start + 4} \<inter> R" by auto
  next
    fix x assume x: "x \<in> {start..start + 4} \<inter> R"
    then have "x - start \<in> {i. start + i \<in> R} \<inter> {0..4}" by simp
    moreover have "x = start + (x - start)" by simp
    ultimately show "x \<in> (\<lambda>i. start + i) ` ({i. start + i \<in> R} \<inter> {0..4})"
      by (rule rev_image_eqI)
  qed
  finally show ?thesis .
qed

lemma straight_draw_windows:
  "straight_draw (set (map fst cards))
     \<longleftrightarrow> (\<exists>start\<in>{1..10}. card ({start..start + 4} \<inter> straight_ranks cards) = 4)"
  unfolding straight_draw_def Let_def with_virtual_ace
  by (simp add: list_ex_iff window_hits)

lemma straight_ranks_bounds:
  assumes "list_all well_formed_pcard cards" "r \<in> straight_ranks cards"
  shows "1 \<le> r \<and> r \<le> 14"
  using assms
  by (auto simp: straight_ranks_def list_all_iff well_formed_pcard_def split: if_splits)

lemma five_consecutive_windows:
  assumes "list_all well_formed_pcard cards"
  shows "(\<exists>start. \<forall>i\<in>{0..4}. start + i \<in> straight_ranks cards)
     \<longleftrightarrow> (\<exists>start\<in>{1..10}. \<forall>i\<in>{0..4}. start + i \<in> straight_ranks cards)"
proof
  assume "\<exists>start. \<forall>i\<in>{0..4}. start + i \<in> straight_ranks cards"
  then obtain start where all: "\<forall>i\<in>{0..4}. start + i \<in> straight_ranks cards" by blast
  have "start \<in> straight_ranks cards" using all [rule_format, of 0] by simp
  then have lo: "1 \<le> start" using straight_ranks_bounds [OF assms] by blast
  have "start + 4 \<in> straight_ranks cards" using all [rule_format, of 4] by simp
  then have "start + 4 \<le> 14" using straight_ranks_bounds [OF assms] by blast
  with lo have "1 \<le> start" "start \<le> 10" by simp_all
  with all show "\<exists>start\<in>{1..10}. \<forall>i\<in>{0..4}. start + i \<in> straight_ranks cards"
    by auto
next
  assume "\<exists>start\<in>{1..10}. \<forall>i\<in>{0..4}. start + i \<in> straight_ranks cards"
  then show "\<exists>start. \<forall>i\<in>{0..4}. start + i \<in> straight_ranks cards" by blast
qed

text \<open>
  C5. For well-formed input of 2 to 8 cards the classifier returns a result in which
  Straight is 2 exactly when five consecutive ranks are present, an Ace counting also as
  rank 1; when Straight is not 2 and there are fewer than 8 cards, Straight is 1 exactly when
  some window of five consecutive ranks (from 1-5 up to 10-14) holds exactly four ranks that
  are present; and with exactly 8 cards no category carries the draw flag 1.
\<close>

theorem straight_classification:
  assumes "list_all well_formed_pcard (hand @ board)"
    and "2 \<le> length (hand @ board)" and "length (hand @ board) \<le> 8"
  shows "\<exists>result. evaluate_poker_hands hand board 8 = Inr result
     \<and> (Straight result = 2 \<longleftrightarrow>
          (\<exists>start. \<forall>i\<in>{0..4}. start + i \<in> straight_ranks (hand @ board)))
     \<and> (Straight result \<noteq> 2 \<and> length (hand @ board) < 8 \<longrightarrow>
          (Straight result = 1 \<longleftrightarrow>
             (\<exists>start\<in>{1..10}. card ({start..start + 4} \<inter> straight_ranks (hand @ board)) = 4)))
     \<and> (length (hand @ board) = 8 \<longrightarrow> no_draw result)"
proof -
  have ne: "hand @ board \<noteq> []" using assms(2) by auto
  from evaluate_poker_hands_total [OF ne] obtain result
    where res: "evaluate_poker_hands hand board 8 = Inr result" by blast
  note st = Straight_evaluate [OF res]
  have made: "Straight result = 2 \<longleftrightarrow>
      (\<exists>start. \<forall>i\<in>{0..4}. start + i \<in> straight_ranks (hand @ board))"
    unfolding five_consecutive_windows [OF assms(1)] has_straight_windows [symmetric]
    using st by simp
  have draw: "Straight result \<noteq> 2 \<and> length (hand @ board) < 8 \<longrightarrow>
      (Straight result = 1 \<longleftrightarrow>
         (\<exists>start\<in>{1..10}. card ({start..start + 4} \<inter> straight_ranks (hand @ board)) = 4))"
    unfolding straight_draw_windows [symmetric]
    using st by (simp split: if_splits)
  have full: "length (hand @ board) = 8 \<longrightarrow> no_draw result"
  proof
    assume "length (hand @ board) = 8"
    then have "\<not> length (hand @ board) < 8" by simp
    from evaluate_poker_hands_full [OF ne this] res show "no_draw result" by simp
  qed
  from res made draw full show ?thesis by blast
qed

theorem straight_classification_witness:
  "list_all well_formed_pcard ([(14, 1), (2, 0)] @ [(3, 2), (4, 1), (6, 0)])
   \<and> evaluate_poker_hands [(14, 1), (2, 0)] [(3, 2), (4, 1), (6, 0)] 8
       = Inr \<lparr>Pair' = 1, TwoPair = 0, ThreeOfAKind = 0, Straight = 1, Flush = 0,
              FullHouse = 0, FourOfAKind = 0, StraightFlush = 0\<rparr>
   \<and> (\<exists>start\<in>{1..10}.
        card ({start..start + 4} \<inter> straight_ranks ([(14, 1), (2, 0)] @ [(3, 2), (4, 1), (6, 0)]))
          = 4)"
proof -
  have w: "list_all well_formed_pcard ([(14, 1), (2, 0)] @ [(3, 2), (4, 1), (6, 0)])"
    by (simp add: well_formed_pcard_def)
  have e: "evaluate_poker_hands [(14, 1), (2, 0)] [(3, 2), (4, 1), (6, 0)] 8
       = Inr \<lparr>Pair' = 1, TwoPair = 0, ThreeOfAKind = 0, Straight = 1, Flush = 0,
              FullHouse = 0, FourOfAKind = 0, StraightFlush = 0\<rparr>"
    by code_simp
  from straight_classification [OF w] e w show ?thesis by simp
qed

section \<open>The heuristic scorer\<close>

lemma foldl_rank_sum:
  "foldl (\<lambda>score r. score + 0.25 * real_of_int r) s ranks
     = s + (\<Sum>r\<leftarrow>ranks. 0.25 * real_of_int r)"
  by (induction ranks arbitrary: s) simp_all

lemma counter_add_keys: "fst ` set (counter_add x kvs) = insert x (fst ` set kvs)"
proof (induction kvs)
  case Nil
  show ?case by simp
next
  case (Cons kv kvs)
  obtain k n where kv: "kv = (k, n)" by (cases kv)
  show ?case
  proof (cases "k = x")
    case True
    then show ?thesis using kv by auto
  next
    case False
    then have "fst ` set (counter_add x (kv # kvs)) = insert k (fst ` set (counter_add x kvs))"
      using kv by simp
    then show ?thesis using Cons.IH kv by auto
  qed
qed

lemma counter_add_distinct:
  "distinct (map fst kvs) \<Longrightarrow> distinct (map fst (counter_add x kvs))"
  by (induction kvs) (auto simp: counter_add_keys)

lemma counter_add_cnt: "cnt (counter_add x kvs) k = cnt kvs k + (if k = x then 1 else 0)"
  by (induction kvs) (auto simp: cnt_def)

lemma foldl_counter_add:
  "distinct (map fst acc) \<Longrightarrow>
     distinct (map fst (foldl (\<lambda>acc x. counter_add x acc) acc xs))
     \<and> fst ` set (foldl (\<lambda>acc x. counter_add x acc) acc xs) = fst ` set acc \<union> set xs
     \<and> (\<forall>k. cnt (foldl (\<lambda>acc x. counter_add x acc) acc xs) k = cnt acc k + count_list xs k)"
proof (induction xs arbitrary: acc)
  case Nil
  then show ?case by simp
next
  case (Cons x xs)
  from Cons.IH [OF counter_add_distinct [OF Cons.prems, of x]] show ?case
    by (auto simp: counter_add_keys counter_add_cnt)
qed

lemma Counter_props:
  "distinct (map fst (Counter xs))" "fst ` set (Counter xs) = set xs"
  "cnt (Counter xs) k = count_list xs k"
  using foldl_counter_add [of "[]" xs] by (simp_all add: Counter_def cnt_def)

lemma sum_list_assoc:
  "distinct (map fst kvs) \<Longrightarrow>
     (\<Sum>(k, v)\<leftarrow>kvs. g k v) = (\<Sum>k\<in>fst ` set kvs. (g k (cnt kvs k) :: real))"
proof (induction kvs)
  case Nil
  show ?case by simp
next
  case (Cons kv kvs)
  obtain k v where kv: "kv = (k, v)" by (cases kv)
  from Cons.prems kv have notin: "k \<notin> fst ` set kvs" and d: "distinct (map fst kvs)"
    by auto
  have same: "\<And>k'. k' \<in> fst ` set kvs \<Longrightarrow> cnt (kv # kvs) k' = cnt kvs k'"
    using notin kv by (auto simp: cnt_def)
  have "(\<Sum>k'\<in>fst ` set (kv # kvs). g k' (cnt (kv # kvs) k'))
      = g k (cnt (kv # kvs) k) + (\<Sum>k'\<in>fst ` set kvs. g k' (cnt (kv # kvs) k'))"
    using notin kv by simp
  also have "\<dots> = g k v + (\<Sum>k'\<in>fst ` set kvs. g k' (cnt kvs k'))"
    using same kv by (simp add: cnt_def)
  finally show ?case using Cons.IH [OF d] kv by simp
qed

lemma count_scores_sum:
  "\<forall>r\<in>fst ` set kvs. 0 \<le> r \<Longrightarrow>
     count_scores kvs s = Inr (s + (\<Sum>(r, c)\<leftarrow>kvs. sqrt (real_of_int r) * real (c ^ 2)))"
  by (induction kvs arbitrary: s) (auto simp: py_sqrt_def)

lemma count_scores_Counter:
  assumes "\<forall>r\<in>set ranks. 0 \<le> r"
  shows "count_scores (Counter ranks) s
     = Inr (s + (\<Sum>r\<in>set ranks. sqrt (real_of_int r) * real ((count_list ranks r) ^ 2)))"
proof -
  have "count_scores (Counter ranks) s
      = Inr (s + (\<Sum>(r, c)\<leftarrow>Counter ranks. sqrt (real_of_int r) * real (c ^ 2)))"
    by (rule count_scores_sum) (simp add: Counter_props assms)
  also have "(\<Sum>(r, c)\<leftarrow>Counter ranks. sqrt (real_of_int r) * real (c ^ 2))
      = (\<Sum>r\<in>fst ` set (Counter ranks). sqrt (real_of_int r) * real ((cnt (Counter ranks) r) ^ 2))"
    by (rule sum_list_assoc) (rule Counter_props)
  finally show ?thesis by (simp add: Counter_props)
qed

lemma premium_scores_items:
  "premium_scores (items flags) s
     = Inr (s + real (1 * Pair' flags + 2 * TwoPair flags + 3 * ThreeOfAKind flags
                  + 4 * Straight flags + 5 * Flush flags + 6 * FullHouse flags
                  + 7 * FourOfAKind flags + 8 * StraightFlush flags))"
  by (simp add: items_def HAND_RANKS_def getitem_def)

lemma sqrt_max_ok:
  assumes "ranks \<noteq> []" "\<forall>r\<in>set ranks. 0 \<le> r"
  shows "sqrt_max ranks = Inr (sqrt (real_of_int (Max (set ranks))))"
proof -
  have "Max (set ranks) \<in> set ranks" using assms(1) by (intro Max_in) simp_all
  then have "0 \<le> Max (set ranks)" using assms(2) by blast
  then have "\<not> Max (set ranks) < 0" by (rule leD)
  then have neg: "(Max (set ranks) < 0) = False" by (rule eq_False [THEN iffD2])
  have ne: "(ranks = []) = False" using assms(1) by simp
  show ?thesis unfolding sqrt_max_def py_sqrt_def by (simp only: neg ne if_False)
qed

lemma bonus_spec:
  assumes "ranks \<noteq> []" "\<forall>r\<in>set ranks. 0 \<le> r"
  shows "bonus flag made draw ranks s
     = Inr (s + spec_bonus flag made draw (sqrt (real_of_int (Max (set ranks)))))"
  unfolding bonus_def spec_bonus_def sqrt_max_ok [OF assms] by simp

lemma well_formed_ranks:
  "list_all well_formed_pcard cards \<Longrightarrow> \<forall>r\<in>set (map fst cards). 0 \<le> r"
  by (auto simp: list_all_iff well_formed_pcard_def)

text \<open>
  C8. For well-formed input of 2 to 8 cards the heuristic scorer returns the specification's
  formula: the sum of 0.25 times each card's rank, plus for each distinct rank the square
  root of the rank times the square of its multiplicity, plus the category ordinals (Pair 1
  to StraightFlush 8) times the classifier's flags, plus the straight, flush and
  straight-flush bonuses on the square root of the highest rank, all divided by the number
  of cards. Floats are read as real numbers.
\<close>

theorem poker_hand_scorer_formula:
  assumes "list_all well_formed_pcard (hand @ board)"
    and "2 \<le> length (hand @ board)" and "length (hand @ board) \<le> 8"
  shows "\<exists>flags. evaluate_poker_hands hand board 8 = Inr flags
           \<and> poker_hand_scorer hand board = Inr (spec_score (hand @ board) flags)"
proof -
  have ne: "hand @ board \<noteq> []" using assms(2) by auto
  from evaluate_poker_hands_total [OF ne] obtain flags
    where res: "evaluate_poker_hands hand board 8 = Inr flags" by blast
  define ranks where "ranks = map fst (hand @ board)"
  have nonneg: "\<forall>r\<in>set ranks. 0 \<le> r"
    unfolding ranks_def by (rule well_formed_ranks [OF assms(1)])
  have rne: "ranks \<noteq> []" using ne by (simp add: ranks_def)
  have len: "length (hand @ board) \<noteq> 0" using ne by simp
  have "poker_hand_scorer hand board = Inr (spec_score (hand @ board) flags)"
    unfolding poker_hand_scorer_def spec_score_def res Let_def ranks_def [symmetric]
    by (simp only: sum.case foldl_rank_sum count_scores_Counter [OF nonneg]
          premium_scores_items bonus_spec [OF rne nonneg] len if_False add_0)
  with res show ?thesis by blast
qed

theorem poker_hand_scorer_formula_witness:
  "list_all well_formed_pcard ([(14, 1), (2, 0)] @ [(3, 2), (4, 1), (6, 0)])
   \<and> poker_hand_scorer [(14, 1), (2, 0)] [(3, 2), (4, 1), (6, 0)]
       = Inr (spec_score ([(14, 1), (2, 0)] @ [(3, 2), (4, 1), (6, 0)])
               \<lparr>Pair' = 1, TwoPair = 0, ThreeOfAKind = 0, Straight = 1, Flush = 0,
                FullHouse = 0, FourOfAKind = 0, StraightFlush = 0\<rparr>)"
proof -
  have w: "list_all well_formed_pcard ([(14, 1), (2, 0)] @ [(3, 2), (4, 1), (6, 0)])"
    by (simp add: well_formed_pcard_def)
  have e: "evaluate_poker_hands [(14, 1), (2, 0)] [(3, 2), (4, 1), (6, 0)] 8
       = Inr \<lparr>Pair' = 1, TwoPair = 0, ThreeOfAKind = 0, Straight = 1, Flush = 0,
              FullHouse = 0, FourOfAKind = 0, StraightFlush = 0\<rparr>"
    by code_simp
  from poker_hand_scorer_formula [OF w] e w show ?thesis by simp
qed

section \<open>The Monte Carlo loop\<close>

lemma run_trials_counts:
  assumes "run_trials ext score h b need n deck (w, t) = Inr ((w', t'), deck')"
  shows "length (trial_scores ext score h b need n deck) = n
     \<and> w' = w + count_wins (trial_scores ext score h b need n deck)
     \<and> t' = t + count_ties (trial_scores ext score h b need n deck)"
  using assms
proof (induction n arbitrary: deck w t)
  case 0
  then show ?case by (simp add: count_wins_def count_ties_def)
next
  case (Suc n)
  from Suc.prems obtain my opp deck1
    where pt: "play_trial ext score h b need deck = Inr ((my, opp), deck1)"
    by (cases "play_trial ext score h b need deck") auto
  show ?case
  proof (cases "my > opp")
    case True
    with Suc.prems pt
    have "run_trials ext score h b need n deck1 (w + 1, t) = Inr ((w', t'), deck')" by simp
    from Suc.IH [OF this] show ?thesis using pt True
      by (simp add: count_wins_def count_ties_def)
  next
    case False
    show ?thesis
    proof (cases "my = opp")
      case True
      with Suc.prems pt
      have "run_trials ext score h b need n deck1 (w, t + 1) = Inr ((w', t'), deck')" by simp
      from Suc.IH [OF this] show ?thesis using pt True
        by (simp add: count_wins_def count_ties_def)
    next
      case ne: False
      with Suc.prems pt False
      have "run_trials ext score h b need n deck1 (w, t) = Inr ((w', t'), deck')" by simp
      from Suc.IH [OF this] show ?thesis using pt False ne
        by (simp add: count_wins_def count_ties_def)
    qed
  qed
qed

lemma wins_ties_le: "count_wins scores + count_ties scores \<le> length scores"
  unfolding count_wins_def count_ties_def
  by (induction scores) auto

lemma equity_value_spec:
  assumes "0 \<le> n" "length scores = nat n"
  shows "equity_value (count_wins scores) (count_ties scores) n = spec_equity scores n"
    and "0 \<le> spec_equity scores n" and "spec_equity scores n \<le> 1"
proof -
  show "equity_value (count_wins scores) (count_ties scores) n = spec_equity scores n"
    using assms(1) by (simp add: equity_value_def spec_equity_def)
  show "0 \<le> spec_equity scores n"
    by (simp add: spec_equity_def)
  have "real (count_wins scores) + 0.5 * real (count_ties scores)
      \<le> real (count_wins scores + count_ties scores)" by simp
  also have "\<dots> \<le> real (length scores)" using wins_ties_le [of scores] by linarith
  also have "\<dots> = real_of_int n" using assms by simp
  finally show "spec_equity scores n \<le> 1"
    by (simp add: spec_equity_def)
qed

lemma estimate_equity_spec:
  assumes "0 \<le> n" "estimate_equity ext g kept board n = Inr (v, g')"
  shows "length (estimate_equity_scores ext g kept board n) = nat n
     \<and> v = spec_equity (estimate_equity_scores ext g kept board n) n"
proof -
  from assms(2) obtain w t deck
    where run: "run_trials ext (evaluate ext) kept board (5 - int (length board)) (nat n)
                  (unknown_cards ext kept board, g) (0, 0) = Inr ((w, t), deck)"
      and v: "v = equity_value w t n"
    by (auto simp: estimate_equity_def Let_def split: sum.splits)
  from run_trials_counts [OF run] v equity_value_spec(1) [OF assms(1)] show ?thesis
    by (simp add: estimate_equity_scores_def)
qed

lemma et_estimate_equity_spec:
  assumes "0 \<le> n" "et_estimate_equity ext g hand board n = Inr (v, g')"
  shows "length (et_estimate_equity_scores ext g hand board n) = nat n
     \<and> v = spec_equity (et_estimate_equity_scores ext g hand board n) n"
proof -
  from assms(2) have guard: "\<not> FINAL_BOARD_CARDS - int (length board) < 0"
    by (auto simp: et_estimate_equity_def Let_def split: if_splits)
  with assms(2) obtain w t deck
    where run: "run_trials ext (best5_score ext) hand board
                  (FINAL_BOARD_CARDS - int (length board)) (nat n)
                  (unknown_cards ext hand board, g) (0, 0) = Inr ((w, t), deck)"
      and v: "v = equity_value w t n"
    by (auto simp: et_estimate_equity_def Let_def split: sum.splits)
  from run_trials_counts [OF run] v equity_value_spec(1) [OF assms(1)] guard show ?thesis
    by (simp add: et_estimate_equity_scores_def)
qed


lemma estimate_equity_range:
  assumes "estimate_equity ext g kept board n = Inr (v, g')"
  shows "0 \<le> v \<and> v \<le> 1"
proof (cases "0 \<le> n")
  case True
  from estimate_equity_spec [OF True assms] equity_value_spec(2,3) [OF True]
  show ?thesis by simp
next
  case False
  then have "nat n = 0" by simp
  with assms have "v = equity_value 0 0 n"
    by (auto simp: estimate_equity_def Let_def)
  then show ?thesis by (simp add: equity_value_def)
qed

lemma play_trial_mset:
  assumes "shuffle_permutes ext" "deal_removes ext"
    and "play_trial ext score h b need deck = Inr (sc, deck')"
  shows "mset (fst deck') = mset (fst deck)"
proof -
  obtain cards g where sh: "shuffle ext (snd deck) (fst deck) = (cards, g)"
    by (cases "shuffle ext (snd deck) (fst deck)")
  with assms(1) have m0: "mset cards = mset (fst deck)"
    unfolding shuffle_permutes_def by (metis fst_conv)
  from assms(3) sh obtain opp cards1 where d1: "deal ext 2 cards = Inr (opp, cards1)"
    by (cases "deal ext 2 cards") (auto simp: play_trial_def)
  from assms(3) sh d1 obtain draw cards2 where d2: "deal ext need cards1 = Inr (draw, cards2)"
    by (cases "deal ext need cards1") (auto simp: play_trial_def)
  from assms(2) d1 have m1: "mset opp + mset cards1 = mset cards"
    unfolding deal_removes_def by blast
  from assms(2) d2 have m2: "mset draw + mset cards2 = mset cards1"
    unfolding deal_removes_def by blast
  from assms(3) sh d1 d2 have "fst deck' = cards2 @ (opp @ draw)"
    by (auto simp: play_trial_def Let_def split: sum.splits)
  then have "mset (fst deck') = mset opp + (mset draw + mset cards2)"
    by (simp add: ac_simps)
  also have "\<dots> = mset opp + mset cards1" by (simp only: m2)
  also have "\<dots> = mset cards" by (simp only: m1)
  finally show ?thesis by (simp only: m0)
qed

lemma trial_decks_mset:
  assumes "shuffle_permutes ext" "deal_removes ext"
  shows "\<forall>d\<in>set (trial_decks ext score h b need n deck). mset d = mset (fst deck)"
proof (induction n arbitrary: deck)
  case 0
  show ?case by simp
next
  case (Suc n)
  show ?case
  proof (cases "play_trial ext score h b need deck")
    case (Inl e)
    then show ?thesis by simp
  next
    case (Inr r)
    obtain sc deck' where r: "r = (sc, deck')" by (cases r)
    from play_trial_mset [OF assms] Inr r have "mset (fst deck') = mset (fst deck)" by blast
    with Suc.IH [of deck'] show ?thesis using Inr r by simp
  qed
qed

lemma trial_decks_length:
  "run_trials ext score h b need n deck wt = Inr r \<Longrightarrow>
     length (trial_decks ext score h b need n deck) = n"
proof (induction n arbitrary: deck wt)
  case 0
  show ?case by simp
next
  case (Suc n)
  obtain w t where wt: "wt = (w, t)" by (cases wt)
  from Suc.prems wt obtain sc deck1
    where pt: "play_trial ext score h b need deck = Inr (sc, deck1)"
    by (cases "play_trial ext score h b need deck") auto
  obtain my opp where sc: "sc = (my, opp)" by (cases sc)
  from Suc.prems wt pt sc obtain wt' where
    "run_trials ext score h b need n deck1 wt' = Inr r" by simp
  from Suc.IH [OF this] pt show ?case by simp
qed

lemma run_trials_final_mset:
  assumes "shuffle_permutes ext" "deal_removes ext"
  shows "run_trials ext score h b need n deck wt = Inr (wt', deck') \<Longrightarrow>
     mset (fst deck') = mset (fst deck)"
proof (induction n arbitrary: deck wt)
  case 0
  then show ?case by (cases wt) simp
next
  case (Suc n)
  obtain w t where wt: "wt = (w, t)" by (cases wt)
  from Suc.prems wt obtain sc deck1
    where pt: "play_trial ext score h b need deck = Inr (sc, deck1)"
    by (cases "play_trial ext score h b need deck") auto
  obtain my opp where sc: "sc = (my, opp)" by (cases sc)
  from Suc.prems wt pt sc obtain wt1 where
    "run_trials ext score h b need n deck1 wt1 = Inr (wt', deck')" by simp
  from Suc.IH [OF this] play_trial_mset [OF assms pt] show ?case by simp
qed


lemma play_trial_total:
  assumes "shuffle_permutes ext" "deal_removes ext" "deal_succeeds ext"
    and score: "\<forall>cs. 5 \<le> length cs \<longrightarrow> (\<exists>v. score cs = Inr v)"
    and "0 \<le> need" "2 + need \<le> int (length (fst deck))" "5 \<le> int (length b) + need"
  shows "\<exists>sc deck'. play_trial ext score h b need deck = Inr (sc, deck')"
proof -
  obtain cards g where sh: "shuffle ext (snd deck) (fst deck) = (cards, g)"
    by (cases "shuffle ext (snd deck) (fst deck)")
  with assms(1) have "mset cards = mset (fst deck)"
    unfolding shuffle_permutes_def by (metis fst_conv)
  then have l0: "length cards = length (fst deck)" by (rule mset_eq_length)
  have "0 \<le> (2::int) \<and> 2 \<le> int (length cards)" using l0 assms(5,6) by simp
  with assms(3) obtain opp cards1
    where d1: "deal ext 2 cards = Inr (opp, cards1)" and lopp: "int (length opp) = 2"
    unfolding deal_succeeds_def by blast
  from assms(2) d1 have "mset opp + mset cards1 = mset cards"
    unfolding deal_removes_def by blast
  then have "size (mset opp + mset cards1) = size (mset cards)" by simp
  then have l1: "length opp + length cards1 = length cards" by simp
  have "0 \<le> need \<and> need \<le> int (length cards1)" using l0 l1 lopp assms(5,6) by simp
  with assms(3) obtain draw cards2
    where d2: "deal ext need cards1 = Inr (draw, cards2)" and ldraw: "int (length draw) = need"
    unfolding deal_succeeds_def by blast
  have "5 \<le> length ((b @ draw) @ h)" using ldraw assms(7) by simp
  with score obtain my where my: "score ((b @ draw) @ h) = Inr my" by blast
  have "5 \<le> length ((b @ draw) @ opp)" using ldraw assms(7) by simp
  with score obtain op where op: "score ((b @ draw) @ opp) = Inr op" by blast
  show ?thesis using sh d1 d2 my op by (simp add: play_trial_def Let_def)
qed

lemma run_trials_total:
  assumes "shuffle_permutes ext" "deal_removes ext" "deal_succeeds ext"
    and score: "\<forall>cs. 5 \<le> length cs \<longrightarrow> (\<exists>v. score cs = Inr v)"
    and "0 \<le> need" "5 \<le> int (length b) + need"
  shows "2 + need \<le> int (length (fst deck)) \<Longrightarrow>
     \<exists>r. run_trials ext score h b need n deck wt = Inr r"
proof (induction n arbitrary: deck wt)
  case 0
  show ?case by (cases wt) simp
next
  case (Suc n)
  obtain w t where wt: "wt = (w, t)" by (cases wt)
  from play_trial_total [OF assms(1-5) Suc.prems assms(6)] obtain sc deck1
    where pt: "play_trial ext score h b need deck = Inr (sc, deck1)" by blast
  obtain my opp where sc: "sc = (my, opp)" by (cases sc)
  from play_trial_mset [OF assms(1,2) pt] have "length (fst deck1) = length (fst deck)"
    by (rule mset_eq_length)
  with Suc.prems have "2 + need \<le> int (length (fst deck1))" by simp
  from Suc.IH [OF this] show ?case using wt pt sc by simp
qed

lemma combinations_length: "c \<in> set (combinations k xs) \<Longrightarrow> length c = k"
  by (induction k xs arbitrary: c rule: combinations.induct) auto

lemma best5_loop_total:
  assumes "evaluate_succeeds ext" "\<forall>c\<in>set combos. length c = 5"
  shows "\<exists>v. best5_loop ext best combos = Inr v"
  using assms(2)
proof (induction combos arbitrary: best)
  case Nil
  show ?case by simp
next
  case (Cons c combos)
  then have "5 \<le> length c" by simp
  with assms(1) obtain v where "evaluate ext c = Inr v"
    unfolding evaluate_succeeds_def by blast
  with Cons show ?case by simp
qed

lemma best5_score_total: "evaluate_succeeds ext \<Longrightarrow> \<exists>v. best5_score ext cards = Inr v"
  unfolding best5_score_def
  by (rule best5_loop_total) (simp_all add: combinations_length)

lemma unknown_cards_length:
  assumes "full_deck ext"
  shows "52 \<le> length (unknown_cards ext hand board) + length (hand @ board)"
proof -
  let ?known = "filter (\<lambda>c. c \<in> set (hand @ board)) (Deck_cards ext)"
  have "distinct ?known" using assms by (simp add: full_deck_def)
  then have "card (set ?known) = length ?known" by (rule distinct_card)
  then have "length ?known = card (set ?known)" by (rule sym)
  also have "\<dots> \<le> card (set (hand @ board))" by (intro card_mono) auto
  also have "\<dots> \<le> length (hand @ board)" by (rule card_length)
  finally have known: "length ?known \<le> length (hand @ board)" .
  have "length ?known + length (unknown_cards ext hand board) = length (Deck_cards ext)"
    unfolding unknown_cards_def by (rule sum_length_filter_compl)
  with known assms show ?thesis by (simp add: full_deck_def)
qed

lemma estimate_equity_returns:
  assumes "shuffle_permutes ext" "deal_removes ext" "deal_succeeds ext"
    "evaluate_succeeds ext" "full_deck ext"
    and "length kept \<le> 3" "length board \<le> 5"
  shows "\<exists>v g'. estimate_equity ext g kept board n = Inr (v, g')"
proof -
  have sc: "\<forall>cs. 5 \<le> length cs \<longrightarrow> (\<exists>v. evaluate ext cs = Inr v)"
    using assms(4) by (simp add: evaluate_succeeds_def)
  have need: "0 \<le> 5 - int (length board)" "5 \<le> int (length board) + (5 - int (length board))"
    using assms(7) by simp_all
  have "2 + (5 - int (length board)) \<le> int (length (fst (unknown_cards ext kept board, g)))"
    using unknown_cards_length [OF assms(5), of kept board] assms(6,7) by simp
  from run_trials_total [OF assms(1-3) sc need this] obtain r
    where "run_trials ext (evaluate ext) kept board (5 - int (length board)) (nat n)
             (unknown_cards ext kept board, g) (0, 0) = Inr r" by blast
  then show ?thesis
    by (cases r) (auto simp: estimate_equity_def Let_def split: prod.splits)
qed

lemma et_estimate_equity_returns:
  assumes "shuffle_permutes ext" "deal_removes ext" "deal_succeeds ext"
    "evaluate_succeeds ext" "full_deck ext"
    and "length hand \<le> 3" "length board \<le> 6"
  shows "\<exists>v g'. et_estimate_equity ext g hand board n = Inr (v, g')"
proof -
  have sc: "\<forall>cs. 5 \<le> length cs \<longrightarrow> (\<exists>v. best5_score ext cs = Inr v)"
    using best5_score_total [OF assms(4)] by blast
  have need: "0 \<le> FINAL_BOARD_CARDS - int (length board)"
    "5 \<le> int (length board) + (FINAL_BOARD_CARDS - int (length board))"
    using assms(7) by (simp_all add: FINAL_BOARD_CARDS_def)
  have "2 + (FINAL_BOARD_CARDS - int (length board))
      \<le> int (length (fst (unknown_cards ext hand board, g)))"
    using unknown_cards_length [OF assms(5), of hand board] assms(6,7)
    by (simp add: FINAL_BOARD_CARDS_def)
  from run_trials_total [OF assms(1-3) sc need this] obtain r
    where "run_trials ext (best5_score ext) hand board (FINAL_BOARD_CARDS - int (length board))
             (nat n) (unknown_cards ext hand board, g) (0, 0) = Inr r" by blast
  then show ?thesis using need(1)
    by (cases r) (auto simp: et_estimate_equity_def Let_def split: prod.splits)
qed

lemma et_estimate_equity_guard:
  "6 < length board \<Longrightarrow> et_estimate_equity ext g hand board n = Inl ValueError"
  by (simp add: et_estimate_equity_def FINAL_BOARD_CARDS_def Let_def)

section \<open>The reference library meets the specification\<close>

lemma ref_shuffle_permutes: "shuffle_permutes ref_pkrbot"
proof -
  have split: "mset (take k cards) + mset (drop k cards) = mset cards"
    for k and cards :: "card list"
    by (metis append_take_drop_id mset_append)
  have "mset (rotate g cards) = mset cards" for g and cards :: "card list"
  proof -
    have "mset (rotate g cards)
        = mset (drop (g mod length cards) cards) + mset (take (g mod length cards) cards)"
      by (simp add: rotate_drop_take)
    also have "\<dots>
        = mset (take (g mod length cards) cards) + mset (drop (g mod length cards) cards)"
      by (rule add.commute)
    also have "\<dots> = mset cards" by (rule split)
    finally show ?thesis .
  qed
  then show ?thesis by (simp add: shuffle_permutes_def ref_pkrbot_def)
qed

lemma ref_deal_removes: "deal_removes ref_pkrbot"
proof -
  have "mset (take k cards) + mset (drop k cards) = mset cards" for k and cards :: "card list"
    by (metis append_take_drop_id mset_append)
  then show ?thesis
    by (auto simp: deal_removes_def ref_pkrbot_def ref_deal_def split: if_splits)
qed

lemma ref_deal_succeeds: "deal_succeeds ref_pkrbot"
  by (auto simp: deal_succeeds_def ref_pkrbot_def ref_deal_def)

lemma ref_evaluate_succeeds: "evaluate_succeeds ref_pkrbot"
  by (simp add: evaluate_succeeds_def ref_pkrbot_def ref_evaluate_def)

lemma ref_full_deck: "full_deck ref_pkrbot"
  by (simp add: full_deck_def ref_pkrbot_def RANKS_def SUITS_def)

lemma ref_pkrbot_contract: "pkrbot_contract ref_pkrbot"
  by (simp add: pkrbot_contract_def ref_shuffle_permutes ref_deal_removes ref_deal_succeeds
        ref_evaluate_succeeds ref_full_deck)

section \<open>Claims about the equity estimators\<close>

text \<open>
  C6. For every trial count \<open>n \<ge> 0\<close>, a value returned by either estimator is
  \<open>(wins + 0.5 * ties) / n\<close> when \<open>n > 0\<close> and 0 when \<open>n = 0\<close>, where wins are the trials in
  which the player's score is strictly greater than the opponent's and ties the trials in
  which the two are equal; the value lies between 0 and 1. With a library that meets the
  specification, at most 3 hand cards and a board within the target size, the estimator
  does return.
\<close>

theorem equity_estimate_value:
  assumes "0 \<le> n"
  shows "(\<forall>v g'. estimate_equity ext g kept board n = Inr (v, g') \<longrightarrow>
            length (estimate_equity_scores ext g kept board n) = nat n
            \<and> v = spec_equity (estimate_equity_scores ext g kept board n) n
            \<and> 0 \<le> v \<and> v \<le> 1)
     \<and> (\<forall>v g'. et_estimate_equity ext g hand board' n = Inr (v, g') \<longrightarrow>
            length (et_estimate_equity_scores ext g hand board' n) = nat n
            \<and> v = spec_equity (et_estimate_equity_scores ext g hand board' n) n
            \<and> 0 \<le> v \<and> v \<le> 1)
     \<and> (pkrbot_contract ext \<and> length kept \<le> 3 \<and> length board \<le> 5 \<longrightarrow>
            (\<exists>v g'. estimate_equity ext g kept board n = Inr (v, g')))
     \<and> (pkrbot_contract ext \<and> length hand \<le> 3 \<and> length board' \<le> 6 \<longrightarrow>
            (\<exists>v g'. et_estimate_equity ext g hand board' n = Inr (v, g')))"
proof (intro conjI allI impI)
  fix v g' assume e: "estimate_equity ext g kept board n = Inr (v, g')"
  from estimate_equity_spec [OF assms e]
  show "length (estimate_equity_scores ext g kept board n) = nat n"
    and "v = spec_equity (estimate_equity_scores ext g kept board n) n" by simp_all
  then show "0 \<le> v" and "v \<le> 1" using equity_value_spec(2,3) [OF assms] by simp_all
next
  fix v g' assume e: "et_estimate_equity ext g hand board' n = Inr (v, g')"
  from et_estimate_equity_spec [OF assms e]
  show "length (et_estimate_equity_scores ext g hand board' n) = nat n"
    and "v = spec_equity (et_estimate_equity_scores ext g hand board' n) n" by simp_all
  then show "0 \<le> v" and "v \<le> 1" using equity_value_spec(2,3) [OF assms] by simp_all
next
  assume "pkrbot_contract ext \<and> length kept \<le> 3 \<and> length board \<le> 5"
  then show "\<exists>v g'. estimate_equity ext g kept board n = Inr (v, g')"
    by (intro estimate_equity_returns) (simp_all add: pkrbot_contract_def)
next
  assume "pkrbot_contract ext \<and> length hand \<le> 3 \<and> length board' \<le> 6"
  then show "\<exists>v g'. et_estimate_equity ext g hand board' n = Inr (v, g')"
    by (intro et_estimate_equity_returns) (simp_all add: pkrbot_contract_def)
qed

theorem equity_estimate_value_witness:
  "(0::int) \<le> 4 \<and> pkrbot_contract ref_pkrbot
   \<and> estimate_equity ref_pkrbot 3 [''2s'', ''7d''] [''2c'', ''3c'', ''4c''] 4 = Inr (1 / 4, 7)
   \<and> spec_equity (estimate_equity_scores ref_pkrbot 3 [''2s'', ''7d''] [''2c'', ''3c'', ''4c''] 4) 4
       = 1 / 4
   \<and> et_estimate_equity ref_pkrbot 3 [''As'', ''Ah''] [''2c'', ''3c'', ''4c''] 1 = Inr (1, 4)
   \<and> spec_equity (et_estimate_equity_scores ref_pkrbot 3 [''As'', ''Ah''] [''2c'', ''3c'', ''4c''] 1) 1
       = 1"
proof -
  have e1: "estimate_equity ref_pkrbot 3 [''2s'', ''7d''] [''2c'', ''3c'', ''4c''] 4
      = Inr (1 / 4, 7)"
    by code_simp
  have e2: "et_estimate_equity ref_pkrbot 3 [''As'', ''Ah''] [''2c'', ''3c'', ''4c''] 1
      = Inr (1, 4)"
    by code_simp
  have h4: "(0::int) \<le> 4" and h1: "(0::int) \<le> 1" by simp_all
  from equity_estimate_value [OF h4, THEN conjunct1, rule_format, OF e1]
  have s1: "spec_equity
      (estimate_equity_scores ref_pkrbot 3 [''2s'', ''7d''] [''2c'', ''3c'', ''4c''] 4) 4 = 1 / 4"
    by simp
  from equity_estimate_value [OF h1, THEN conjunct2, THEN conjunct1, rule_format, OF e2]
  have s2: "spec_equity
      (et_estimate_equity_scores ref_pkrbot 3 [''As'', ''Ah''] [''2c'', ''3c'', ''4c''] 1) 1 = 1"
    by simp
  from e1 e2 s1 s2 ref_pkrbot_contract show ?thesis by simp
qed

text \<open>
  C3. The estimator of \<open>build_equity_table.py\<close> raises ValueError when the board is larger
  than the target of 6 cards (for a board of 7 cards below). The estimator of
  \<open>build_discard_table.py\<close>, whose target is 5 board cards, has no such check: for a board
  of 6 cards and no trial it computes the draw count -1 and returns 0, whatever the library
  and the generator state.
\<close>

theorem estimate_equity_without_guard:
  "estimate_equity ext g [''As'', ''Ah''] [''2c'', ''3c'', ''4c'', ''5c'', ''6c'', ''7c''] 0
     = Inr (0, g)
   \<and> 5 - int (length [''2c'', ''3c'', ''4c'', ''5c'', ''6c'', ''7c'']) = - 1
   \<and> et_estimate_equity ext g [''As'', ''Ah'']
        [''2c'', ''3c'', ''4c'', ''5c'', ''6c'', ''7c'', ''8c''] 0 = Inl ValueError"
  by (simp add: estimate_equity_def et_estimate_equity_def equity_value_def Let_def
        FINAL_BOARD_CARDS_def)

text \<open>
  C9. With a library whose shuffle permutes the deck and whose deal removes the cards it
  returns, every trial of one call of either estimator finds a deck with the same multiset
  of cards, the cards of a fresh deck that are neither in the hand nor on the board; a call
  that returns has started all its trials on such a deck.
\<close>

theorem trial_deck_restored:
  assumes "shuffle_permutes ext" and "deal_removes ext"
  shows "(\<forall>d\<in>set (estimate_equity_decks ext g kept board n).
            mset d = mset (unknown_cards ext kept board))
     \<and> (\<forall>d\<in>set (et_estimate_equity_decks ext g hand board' n).
            mset d = mset (unknown_cards ext hand board'))
     \<and> (\<forall>v g'. estimate_equity ext g kept board n = Inr (v, g') \<longrightarrow>
            length (estimate_equity_decks ext g kept board n) = nat n)
     \<and> (\<forall>v g'. et_estimate_equity ext g hand board' n = Inr (v, g') \<longrightarrow>
            length (et_estimate_equity_decks ext g hand board' n) = nat n)
     \<and> set (unknown_cards ext kept board) = set (Deck_cards ext) - set (kept @ board)"
proof (intro conjI allI impI)
  show "\<forall>d\<in>set (estimate_equity_decks ext g kept board n).
          mset d = mset (unknown_cards ext kept board)"
    unfolding estimate_equity_decks_def
    using trial_decks_mset [OF assms, of _ _ _ _ _ "(unknown_cards ext kept board, g)"]
    by simp
  show "\<forall>d\<in>set (et_estimate_equity_decks ext g hand board' n).
          mset d = mset (unknown_cards ext hand board')"
    unfolding et_estimate_equity_decks_def
    using trial_decks_mset [OF assms, of _ _ _ _ _ "(unknown_cards ext hand board', g)"]
    by simp
  show "set (unknown_cards ext kept board) = set (Deck_cards ext) - set (kept @ board)"
    by (auto simp: unknown_cards_def)
next
  fix v g' assume "estimate_equity ext g kept board n = Inr (v, g')"
  then obtain r where "run_trials ext (evaluate ext) kept board (5 - int (length board))
      (nat n) (unknown_cards ext kept board, g) (0, 0) = Inr r"
    by (auto simp: estimate_equity_def Let_def split: sum.splits)
  from trial_decks_length [OF this]
  show "length (estimate_equity_decks ext g kept board n) = nat n"
    by (simp add: estimate_equity_decks_def)
next
  fix v g' assume e: "et_estimate_equity ext g hand board' n = Inr (v, g')"
  then have guard: "\<not> FINAL_BOARD_CARDS - int (length board') < 0"
    by (auto simp: et_estimate_equity_def Let_def split: if_splits)
  with e obtain r where "run_trials ext (best5_score ext) hand board'
      (FINAL_BOARD_CARDS - int (length board')) (nat n) (unknown_cards ext hand board', g) (0, 0)
      = Inr r"
    by (auto simp: et_estimate_equity_def Let_def split: sum.splits)
  from trial_decks_length [OF this] guard
  show "length (et_estimate_equity_decks ext g hand board' n) = nat n"
    by (simp add: et_estimate_equity_decks_def)
qed

theorem trial_deck_restored_witness:
  "shuffle_permutes ref_pkrbot \<and> deal_removes ref_pkrbot
   \<and> length (estimate_equity_decks ref_pkrbot 3 [''As'', ''Ah''] [''2c'', ''3c'', ''4c''] 2) = 2
   \<and> list_all (\<lambda>d. mset d = mset (unknown_cards ref_pkrbot [''As'', ''Ah''] [''2c'', ''3c'', ''4c'']))
        (estimate_equity_decks ref_pkrbot 3 [''As'', ''Ah''] [''2c'', ''3c'', ''4c''] 2)"
proof -
  have l: "length (estimate_equity_decks ref_pkrbot 3 [''As'', ''Ah''] [''2c'', ''3c'', ''4c''] 2)
      = 2"
    by code_simp
  from trial_deck_restored [OF ref_shuffle_permutes ref_deal_removes, THEN conjunct1,
      of 3 "[''As'', ''Ah'']" "[''2c'', ''3c'', ''4c'']" 2]
    l ref_shuffle_permutes ref_deal_removes
  show ?thesis by (simp add: list_all_iff)
qed

section \<open>The best discard\<close>

lemma best_discard_loop_spec:
  assumes "best_discard_loop ext hand3 board trials dis (bi, bs) g = Inr (r, g')"
  shows "\<exists>scores. discard_scores ext hand3 board trials dis g = Inr scores
     \<and> length scores = length dis
     \<and> (if \<forall>s\<in>set scores. s \<le> bs then r = bi
        else \<exists>k<length dis. r = Some (dis ! k) \<and> bs < scores ! k
               \<and> (\<forall>j<length dis. scores ! j \<le> scores ! k)
               \<and> (\<forall>j<k. scores ! j < scores ! k))"
  using assms
proof (induction dis arbitrary: bi bs g)
  case Nil
  then show ?case by simp
next
  case (Cons di dis)
  from Cons.prems obtain s g1
    where est: "estimate_equity ext g (keep_without hand3 di) board trials = Inr (s, g1)"
    by (cases "estimate_equity ext g (keep_without hand3 di) board trials") auto
  show ?case
  proof (cases "s > bs")
    case True
    with Cons.prems est
    have "best_discard_loop ext hand3 board trials dis (Some di, s) g1 = Inr (r, g')" by simp
    from Cons.IH [OF this] obtain scores
      where ds: "discard_scores ext hand3 board trials dis g1 = Inr scores"
        and len: "length scores = length dis"
        and sel: "if \<forall>x\<in>set scores. x \<le> s then r = Some di
           else \<exists>k<length dis. r = Some (dis ! k) \<and> s < scores ! k
                  \<and> (\<forall>j<length dis. scores ! j \<le> scores ! k)
                  \<and> (\<forall>j<k. scores ! j < scores ! k)"
      by blast
    have not_all: "\<not> (\<forall>x\<in>set (s # scores). x \<le> bs)" using True by auto
    have "\<exists>k<length (di # dis). r = Some ((di # dis) ! k) \<and> bs < (s # scores) ! k
            \<and> (\<forall>j<length (di # dis). (s # scores) ! j \<le> (s # scores) ! k)
            \<and> (\<forall>j<k. (s # scores) ! j < (s # scores) ! k)"
    proof (cases "\<forall>x\<in>set scores. x \<le> s")
      case all: True
      with sel have r: "r = Some di" by simp
      have "\<forall>j<length (di # dis). (s # scores) ! j \<le> s"
        using all len by (auto simp: nth_Cons split: nat.splits)
      with r True show ?thesis by (intro exI [of _ 0]) simp
    next
      case False
      with sel obtain k where k: "k < length dis" "r = Some (dis ! k)" "s < scores ! k"
        "\<forall>j<length dis. scores ! j \<le> scores ! k" "\<forall>j<k. scores ! j < scores ! k"
        by auto
      have a: "\<forall>j<length (di # dis). (s # scores) ! j \<le> (s # scores) ! Suc k"
        using k by (auto simp: nth_Cons split: nat.splits)
      have b: "\<forall>j<Suc k. (s # scores) ! j < (s # scores) ! Suc k"
        using k by (auto simp: nth_Cons split: nat.splits)
      from k True a b show ?thesis by (intro exI [of _ "Suc k"]) simp
    qed
    then have sel': "if \<forall>x\<in>set (s # scores). x \<le> bs then r = bi
        else \<exists>k<length (di # dis). r = Some ((di # dis) ! k) \<and> bs < (s # scores) ! k
            \<and> (\<forall>j<length (di # dis). (s # scores) ! j \<le> (s # scores) ! k)
            \<and> (\<forall>j<k. (s # scores) ! j < (s # scores) ! k)"
      by (simp only: if_not_P [OF not_all] if_False)
    have d: "discard_scores ext hand3 board trials (di # dis) g = Inr (s # scores)"
      using est ds by simp
    have l: "length (s # scores) = length (di # dis)" using len by simp
    from d l sel' show ?thesis by blast
  next
    case False
    with Cons.prems est
    have "best_discard_loop ext hand3 board trials dis (bi, bs) g1 = Inr (r, g')" by simp
    from Cons.IH [OF this] obtain scores
      where ds: "discard_scores ext hand3 board trials dis g1 = Inr scores"
        and len: "length scores = length dis"
        and sel: "if \<forall>x\<in>set scores. x \<le> bs then r = bi
           else \<exists>k<length dis. r = Some (dis ! k) \<and> bs < scores ! k
                  \<and> (\<forall>j<length dis. scores ! j \<le> scores ! k)
                  \<and> (\<forall>j<k. scores ! j < scores ! k)"
      by blast
    have d: "discard_scores ext hand3 board trials (di # dis) g = Inr (s # scores)"
      using est ds by simp
    have l: "length (s # scores) = length (di # dis)" using len by simp
    show ?thesis
    proof (cases "\<forall>x\<in>set scores. x \<le> bs")
      case True
      with sel have r: "r = bi" by simp
      have all: "\<forall>x\<in>set (s # scores). x \<le> bs" using True False by simp
      have "if \<forall>x\<in>set (s # scores). x \<le> bs then r = bi
        else \<exists>k<length (di # dis). r = Some ((di # dis) ! k) \<and> bs < (s # scores) ! k
            \<and> (\<forall>j<length (di # dis). (s # scores) ! j \<le> (s # scores) ! k)
            \<and> (\<forall>j<k. (s # scores) ! j < (s # scores) ! k)"
        by (simp only: if_P [OF all] r)
      with d l show ?thesis by blast
    next
      case nall: False
      with sel obtain k where k: "k < length dis" "r = Some (dis ! k)" "bs < scores ! k"
        "\<forall>j<length dis. scores ! j \<le> scores ! k" "\<forall>j<k. scores ! j < scores ! k"
        by auto
      have sk: "s < scores ! k" using False k(3) by simp
      have a: "\<forall>j<length (di # dis). (s # scores) ! j \<le> (s # scores) ! Suc k"
        using k sk by (auto simp: nth_Cons split: nat.splits)
      have b: "\<forall>j<Suc k. (s # scores) ! j < (s # scores) ! Suc k"
        using k sk by (auto simp: nth_Cons split: nat.splits)
      have "\<exists>k<length (di # dis). r = Some ((di # dis) ! k) \<and> bs < (s # scores) ! k
            \<and> (\<forall>j<length (di # dis). (s # scores) ! j \<le> (s # scores) ! k)
            \<and> (\<forall>j<k. (s # scores) ! j < (s # scores) ! k)"
        using k a b by (intro exI [of _ "Suc k"]) simp
      moreover have na: "\<not> (\<forall>x\<in>set (s # scores). x \<le> bs)" using nall by simp
      ultimately have "if \<forall>x\<in>set (s # scores). x \<le> bs then r = bi
        else \<exists>k<length (di # dis). r = Some ((di # dis) ! k) \<and> bs < (s # scores) ! k
            \<and> (\<forall>j<length (di # dis). (s # scores) ! j \<le> (s # scores) ! k)
            \<and> (\<forall>j<k. (s # scores) ! j < (s # scores) ! k)"
        by (simp only: if_not_P [OF na] if_False)
      with d l show ?thesis by blast
    qed
  qed
qed

lemma discard_scores_range:
  "discard_scores ext hand3 board trials dis g = Inr scores \<Longrightarrow> \<forall>s\<in>set scores. 0 \<le> s \<and> s \<le> 1"
proof (induction dis arbitrary: g scores)
  case Nil
  then show ?case by simp
next
  case (Cons di dis)
  from Cons.prems obtain s g1
    where est: "estimate_equity ext g (keep_without hand3 di) board trials = Inr (s, g1)"
    by (cases "estimate_equity ext g (keep_without hand3 di) board trials") auto
  with Cons.prems obtain rest
    where rest: "discard_scores ext hand3 board trials dis g1 = Inr rest"
      and scores: "scores = s # rest"
    by (cases "discard_scores ext hand3 board trials dis g1") auto
  from estimate_equity_range [OF est] Cons.IH [OF rest] scores show ?case by simp
qed

lemma keep_without_length: "length (keep_without hand3 di) \<le> length hand3"
proof -
  have "length (keep_without hand3 di) \<le> length (enumerate 0 hand3)"
    unfolding keep_without_def length_map by (rule length_filter_le)
  then show ?thesis by simp
qed

lemma best_discard_loop_returns:
  assumes "pkrbot_contract ext" "length hand3 \<le> 3" "length board \<le> 5"
  shows "\<exists>r g'. best_discard_loop ext hand3 board trials dis best g = Inr (r, g')"
proof (induction dis arbitrary: best g)
  case Nil
  show ?case by (cases best) simp
next
  case (Cons di dis)
  obtain bi bs where best: "best = (bi, bs)" by (cases best)
  have "length (keep_without hand3 di) \<le> 3"
    using keep_without_length [of hand3 di] assms(2) by simp
  with assms have "\<exists>v g'. estimate_equity ext g (keep_without hand3 di) board trials = Inr (v, g')"
    by (intro estimate_equity_returns) (simp_all add: pkrbot_contract_def)
  then obtain s g1
    where est: "estimate_equity ext g (keep_without hand3 di) board trials = Inr (s, g1)"
    by blast
  from Cons.IH [of "(Some di, s)" g1] Cons.IH [of "(bi, bs)" g1] show ?case
    using best est by simp
qed

text \<open>
  C7. For a 3-card hand and any board, a result of \<open>best_discard\<close> is an index \<open>i\<close> in
  \<open>{0, 1, 2}\<close>, a position of the hand, such that the equity estimated for discarding
  \<open>i\<close> is maximal among the three estimates of this call and strictly greater than the
  estimates for all earlier indices: the first index of maximal equity. With a library
  that meets the specification and a board of at most 5 cards, \<open>best_discard\<close> returns.
\<close>

theorem best_discard_first_maximum:
  assumes "length hand3 = 3"
  shows "(\<forall>r g'. best_discard ext g hand3 board trials = Inr (r, g') \<longrightarrow>
            (\<exists>scores i. discard_scores ext hand3 board trials [0, 1, 2] g = Inr scores
               \<and> length scores = 3 \<and> r = Some i \<and> i < length hand3
               \<and> (\<forall>j<3. scores ! j \<le> scores ! i)
               \<and> (\<forall>j<i. scores ! j < scores ! i)))
     \<and> (pkrbot_contract ext \<and> length board \<le> 5 \<longrightarrow>
            (\<exists>r g'. best_discard ext g hand3 board trials = Inr (r, g')))"
proof (intro conjI allI impI)
  fix r g' assume "best_discard ext g hand3 board trials = Inr (r, g')"
  then have "best_discard_loop ext hand3 board trials [0, 1, 2] (None, - 1) g = Inr (r, g')"
    by (simp add: best_discard_def)
  from best_discard_loop_spec [OF this] obtain scores
    where ds: "discard_scores ext hand3 board trials [0, 1, 2] g = Inr scores"
      and len: "length scores = 3"
      and sel: "if \<forall>s\<in>set scores. s \<le> - 1 then r = None
         else \<exists>k<length [0, 1, 2 :: nat]. r = Some ([0, 1, 2] ! k) \<and> - 1 < scores ! k
                \<and> (\<forall>j<length [0, 1, 2 :: nat]. scores ! j \<le> scores ! k)
                \<and> (\<forall>j<k. scores ! j < scores ! k)"
    by auto
  from len have "scores ! 0 \<in> set scores" by (intro nth_mem) simp
  with discard_scores_range [OF ds] have nall: "\<not> (\<forall>s\<in>set scores. s \<le> - 1)"
    by fastforce
  from sel have "\<exists>k<length [0, 1, 2 :: nat]. r = Some ([0, 1, 2] ! k) \<and> - 1 < scores ! k
      \<and> (\<forall>j<length [0, 1, 2 :: nat]. scores ! j \<le> scores ! k)
      \<and> (\<forall>j<k. scores ! j < scores ! k)"
    by (simp only: if_not_P [OF nall] if_False)
  then obtain k where k0: "k < length [0, 1, 2 :: nat]" and kr: "r = Some ([0, 1, 2] ! k)"
    and kmax: "\<forall>j<length [0, 1, 2 :: nat]. scores ! j \<le> scores ! k"
    and kfirst: "\<forall>j<k. scores ! j < scores ! k"
    by blast
  have l3: "length [0, 1, 2 :: nat] = 3" by simp
  note k = k0 [unfolded l3] kr kmax [unfolded l3] kfirst
  from k(1) have "[0, 1, 2 :: nat] ! k = k"
    by (auto simp: nth_Cons split: nat.splits)
  with k ds len assms
  show "\<exists>scores i. discard_scores ext hand3 board trials [0, 1, 2] g = Inr scores
          \<and> length scores = 3 \<and> r = Some i \<and> i < length hand3
          \<and> (\<forall>j<3. scores ! j \<le> scores ! i) \<and> (\<forall>j<i. scores ! j < scores ! i)"
    by auto
next
  assume "pkrbot_contract ext \<and> length board \<le> 5"
  with assms show "\<exists>r g'. best_discard ext g hand3 board trials = Inr (r, g')"
    unfolding best_discard_def by (intro best_discard_loop_returns) simp_all
qed

theorem best_discard_first_maximum_witness:
  "length [''2s'', ''Ah'', ''7d''] = 3
   \<and> best_discard ref_pkrbot 3 [''2s'', ''Ah'', ''7d''] [''2c'', ''3c'', ''4c''] 2
       = Inr (Some 0, 9)
   \<and> discard_scores ref_pkrbot [''2s'', ''Ah'', ''7d''] [''2c'', ''3c'', ''4c''] 2 [0, 1, 2] 3
       = Inr [1, 1 / 2, 1]
   \<and> (\<exists>r g'. best_discard ref_pkrbot 3 [''2s'', ''Ah'', ''7d''] [''2c'', ''3c'', ''4c''] 2
         = Inr (r, g'))"
proof -
  have l: "length [''2s'', ''Ah'', ''7d''] = 3" by simp
  have b: "best_discard ref_pkrbot 3 [''2s'', ''Ah'', ''7d''] [''2c'', ''3c'', ''4c''] 2
      = Inr (Some 0, 9)"
    by code_simp
  have d: "discard_scores ref_pkrbot [''2s'', ''Ah'', ''7d''] [''2c'', ''3c'', ''4c''] 2
      [0, 1, 2] 3 = Inr [1, 1 / 2, 1]"
    by code_simp
  from best_discard_first_maximum [OF l, THEN conjunct2, of ref_pkrbot "[''2c'', ''3c'', ''4c'']"]
    ref_pkrbot_contract
  have "\<exists>r g'. best_discard ref_pkrbot 3 [''2s'', ''Ah'', ''7d''] [''2c'', ''3c'', ''4c''] 2
      = Inr (r, g')"
    by simp
  with l b d show ?thesis by simp
qed

end
